theory Spec2Isabelle
  imports Complex_Main
begin

section \<open>The benchmark harness of \<open>common.ts\<close>\<close>

text \<open>
  The class \<open>Benchmark\<close> has two static members: the private byte-size humanizer
  \<open>formatBytes\<close> and the harness \<open>measurePerformance\<close>, which runs an operation a given
  number of times between two readings of the clock and of the memory counters and prints a
  report with \<open>console.log\<close>.

  The embedding is shallow. The process is a record of what the harness and the operation can
  touch; every statement of the source is a function from the process state to the next one,
  a \<open>throw\<close> is a value, and the loop is a recursive function.
\<close>

subsection \<open>JavaScript numbers\<close>

text \<open>
  A \<open>number\<close> is a double: a finite value, one of the two infinities or NaN. A finite value is
  kept as the rational it denotes, and every operation that the runtime rounds is rounded here:
  \<open>to_double\<close> is rounding to the nearest double, ties to the even significand, with the
  gradual underflow and the overflow to infinity of the IEEE 754 binary64 format. Negative
  zero is not distinguished from zero: no divisor of the source can be negative zero, no
  comparison tells the two apart, and \<open>toFixed\<close> prints both alike.
\<close>

datatype number = Fin rat | PInf | NInf | NaN

text \<open>
  \<open>binade y e\<close> scales a positive \<open>y\<close> by powers of two, keeping \<open>y * 2\<^sup>e\<close>, until \<open>y\<close> lies
  between \<open>2\<^sup>5\<^sup>2\<close> and \<open>2\<^sup>5\<^sup>3\<close>, or the exponent has reached that of the subnormal numbers.
\<close>

function binade :: "rat \<Rightarrow> int \<Rightarrow> rat \<times> int" where
  "binade y e =
     (if 2 ^ 53 \<le> y then binade (y / 2) (e + 1)
      else if y < 2 ^ 52 \<and> - 1074 < e then binade (y * 2) (e - 1)
      else (y, e))"
  by pat_completeness auto
termination
proof (relation "measures [\<lambda>(y, e). if 2 ^ 53 \<le> y then nat \<lfloor>y\<rfloor> else 0, \<lambda>(y, e). nat (e + 1074)]")
  show "wf (measures [\<lambda>(y :: rat, e :: int). if 2 ^ 53 \<le> y then nat \<lfloor>y\<rfloor> else 0, \<lambda>(y, e). nat (e + 1074)])"
    by simp
next
  fix y :: rat and e :: int
  assume big: "2 ^ 53 \<le> y"
  have "\<lfloor>y / 2\<rfloor> < \<lfloor>y\<rfloor>"
  proof -
    have "y / 2 \<le> y - 1" using big by simp
    then have "\<lfloor>y / 2\<rfloor> \<le> \<lfloor>y - 1\<rfloor>" by (rule floor_mono)
    then show ?thesis by simp
  qed
  moreover have "0 < \<lfloor>y\<rfloor>" using big by (simp add: floor_less_iff not_less [symmetric] less_floor_iff)
  ultimately show "((y / 2, e + 1), (y, e)) \<in>
      measures [\<lambda>(y, e). if 2 ^ 53 \<le> y then nat \<lfloor>y\<rfloor> else 0, \<lambda>(y, e). nat (e + 1074)]"
    using big by simp
next
  fix y :: rat and e :: int
  assume "\<not> 2 ^ 53 \<le> y" and "y < 2 ^ 52 \<and> - 1074 < e"
  then show "((y * 2, e - 1), (y, e)) \<in>
      measures [\<lambda>(y, e). if 2 ^ 53 \<le> y then nat \<lfloor>y\<rfloor> else 0, \<lambda>(y, e). nat (e + 1074)]"
    by simp
qed

declare binade.simps [simp del]

definition round_half_even :: "rat \<Rightarrow> int" where
  "round_half_even y =
     (let f = \<lfloor>y\<rfloor>; d = y - of_int f
      in if d < 1 / 2 then f else if 1 / 2 < d then f + 1 else if even f then f else f + 1)"

definition to_double :: "rat \<Rightarrow> number" where
  "to_double x =
     (if x = 0 then Fin 0
      else let (y, e) = binade \<bar>x\<bar> 0;
               r = of_int (round_half_even y) * 2 powi e
           in if 2 ^ 1024 \<le> r then (if 0 < x then PInf else NInf)
              else Fin (if 0 < x then r else - r))"

text \<open>\<open>Number(n)\<close> of a \<open>bigint\<close>, and the unary minus.\<close>

definition Number_of :: "int \<Rightarrow> number" where
  "Number_of n = to_double (of_int n)"

definition js_neg :: "number \<Rightarrow> number" where
  "js_neg v = (case v of Fin r \<Rightarrow> Fin (- r) | PInf \<Rightarrow> NInf | NInf \<Rightarrow> PInf | NaN \<Rightarrow> NaN)"

text \<open>
  The operator \<open>/\<close>: the quotient of two finite numbers is rounded to the nearest double;
  division by zero yields an infinity or NaN, never an exception.
\<close>

fun js_div :: "number \<Rightarrow> number \<Rightarrow> number" where
  "js_div NaN _ = NaN"
| "js_div _ NaN = NaN"
| "js_div (Fin a) (Fin b) =
     (if b = 0 then (if a = 0 then NaN else if 0 < a then PInf else NInf) else to_double (a / b))"
| "js_div (Fin a) PInf = Fin 0"
| "js_div (Fin a) NInf = Fin 0"
| "js_div PInf (Fin b) = (if 0 \<le> b then PInf else NInf)"
| "js_div NInf (Fin b) = (if 0 \<le> b then NInf else PInf)"
| "js_div PInf PInf = NaN"
| "js_div PInf NInf = NaN"
| "js_div NInf PInf = NaN"
| "js_div NInf NInf = NaN"

text \<open>The operator \<open>>=\<close>: every comparison with NaN is false.\<close>

fun js_ge :: "number \<Rightarrow> number \<Rightarrow> bool" where
  "js_ge NaN _ = False"
| "js_ge _ NaN = False"
| "js_ge (Fin a) (Fin b) = (b \<le> a)"
| "js_ge PInf _ = True"
| "js_ge NInf NInf = True"
| "js_ge NInf _ = False"
| "js_ge (Fin a) NInf = True"
| "js_ge (Fin a) PInf = False"

subsection \<open>Numbers as text\<close>

definition digit :: "nat \<Rightarrow> char" where
  "digit d = ''0123456789'' ! d"

fun decimal :: "nat \<Rightarrow> string" where
  "decimal n = (if n < 10 then [digit n] else decimal (n div 10) @ [digit (n mod 10)])"

declare decimal.simps [simp del]

text \<open>
  \<open>Number.prototype.toFixed(f)\<close>, step by step as the language standard gives it: a value that
  is not finite prints as its name; the sign is taken off; the magnitude \<open>y\<close> is replaced by
  the integer \<open>n\<close> for which \<open>n / 10\<^sup>f\<close> is nearest to it, the larger one on a tie; the
  digits of \<open>n\<close> are padded with zeros to \<open>f + 1\<close> places and the point is put before the
  last \<open>f\<close> of them.

  From \<open>10\<^sup>2\<^sup>1\<close> on the standard switches to the exponent notation of
  \<open>Number::toString\<close>. That notation is not modelled: \<open>exponential\<close>, a parameter of
  every function that prints a number, stands for it.
\<close>

definition toFixed :: "(rat \<Rightarrow> string) \<Rightarrow> nat \<Rightarrow> number \<Rightarrow> string" where
  "toFixed exponential f v =
     (case v of
        NaN \<Rightarrow> ''NaN''
      | PInf \<Rightarrow> ''Infinity''
      | NInf \<Rightarrow> ''-Infinity''
      | Fin x \<Rightarrow>
          (let s = (if x < 0 then ''-'' else '''');
               y = \<bar>x\<bar>
           in if 10 ^ 21 \<le> y then s @ exponential y
              else
                let n = nat \<lfloor>y * 10 ^ f + 1 / 2\<rfloor>;
                    m = decimal n;
                    m = (if f \<noteq> 0 \<and> length m \<le> f
                         then replicate (f + 1 - length m) CHR ''0'' @ m else m);
                    k = length m
                in s @ (if f \<noteq> 0 then take (k - f) m @ ''.'' @ drop (k - f) m else m)))"

text \<open>
  An integer inside a template literal, \<open>${iterations}\<close>: its decimal digits, with the same
  switch to the exponent notation.
\<close>

definition toString :: "(rat \<Rightarrow> string) \<Rightarrow> int \<Rightarrow> string" where
  "toString exponential n =
     (if n < 0 then ''-'' else '''') @
     (if 10 ^ 21 \<le> \<bar>n\<bar> then exponential (of_int \<bar>n\<bar>) else decimal (nat \<bar>n\<bar>))"

subsection \<open>\<open>formatBytes\<close>\<close>

definition units :: "string list" where
  "units = [''B'', ''KB'', ''MB'', ''GB'']"

text \<open>
  The \<open>while\<close> loop of \<open>formatBytes\<close>, on its two variables (\<open>size\<close> is written \<open>size'\<close>).
  It ends because \<open>unitIndex\<close> grows towards \<open>units.length - 1\<close>.
\<close>

function formatBytes_loop :: "number \<Rightarrow> nat \<Rightarrow> number \<times> nat" where
  "formatBytes_loop size' unitIndex =
     (if js_ge size' (Fin 1024) \<and> unitIndex < length units - 1
      then formatBytes_loop (js_div size' (Fin 1024)) (unitIndex + 1)
      else (size', unitIndex))"
  by pat_completeness auto
termination
  by (relation "measure (\<lambda>(size', unitIndex). length units - 1 - unitIndex)") auto

declare formatBytes_loop.simps [simp del]

definition formatBytes :: "(rat \<Rightarrow> string) \<Rightarrow> number \<Rightarrow> string" where
  "formatBytes exponential bytes =
     (let (size', unitIndex) = formatBytes_loop bytes 0
      in toFixed exponential 2 size' @ '' '' @ units ! unitIndex)"

text \<open>
  The humanizer as the specification words it, for comparison with the code: the unit is found
  from the magnitude of the byte count, going up from B one division by 1024 at a time and
  stopping at the first unit at which the scaled magnitude is below 1024, at GB at the latest;
  the signed value is scaled by that unit and printed with two decimals.
\<close>

definition spec_unit :: "rat \<Rightarrow> nat" where
  "spec_unit x =
     (if \<bar>x\<bar> < 1024 then 0
      else if \<bar>x\<bar> / 1024 < 1024 then 1
      else if \<bar>x\<bar> / 1024 ^ 2 < 1024 then 2
      else 3)"

definition spec_humanizer :: "(rat \<Rightarrow> string) \<Rightarrow> rat \<Rightarrow> string" where
  "spec_humanizer exponential x =
     toFixed exponential 2 (Fin (x / 1024 ^ spec_unit x)) @ '' '' @
     units ! spec_unit x"

text \<open>
  Three notions used in the statements below: the number of divisions the loop performs on a
  finite value, the text of a number of hundredths, and the number that a string of digits
  denotes.
\<close>

definition loop_unit :: "rat \<Rightarrow> nat" where
  "loop_unit x =
     (if x < 1024 then 0
      else if x / 1024 < 1024 then 1
      else if x / 1024 ^ 2 < 1024 then 2
      else 3)"

definition two_decimals :: "nat \<Rightarrow> string" where
  "two_decimals n = decimal (n div 100) @ ''.'' @ [digit (n div 10 mod 10), digit (n mod 10)]"

definition digits_value :: "string \<Rightarrow> nat" where
  "digits_value ds = foldl (\<lambda>a c. 10 * a + (of_char c - 48)) 0 ds"

subsection \<open>The process\<close>

text \<open>
  What \<open>process.memoryUsage()\<close> returns; of its fields the harness reads these three, each a
  count of bytes.
\<close>

record MemoryUsage =
  rss :: nat
  heapTotal :: nat
  heapUsed :: nat

text \<open>
  The state of the process, as far as a run can see or change it:
  \<^item> the lines written to the two output streams;
  \<^item> what the clock and the memory counters are going to answer: \<open>hrtime w 0\<close> is the
    result of the next call of \<open>process.hrtime.bigint()\<close>, in nanoseconds, \<open>hrtime w 1\<close> of
    the call after it, and likewise \<open>memory\<close>;
  \<^item> \<open>heap\<close>, the program's own data, which the closure given to the harness works on;
  \<^item> \<open>microtasks\<close>, the queue of the event loop: the remainders of the asynchronous
    functions that have been started and are suspended at an \<open>await\<close>.
\<close>

record 's world =
  stdout :: "string list"
  stderr :: "string list"
  hrtime :: "nat \<Rightarrow> int"
  memory :: "nat \<Rightarrow> MemoryUsage"
  heap :: 's
  microtasks :: "('s \<Rightarrow> 's) list"

definition console_log :: "string \<Rightarrow> 's world \<Rightarrow> 's world" where
  "console_log line w = w\<lparr>stdout := stdout w @ [line]\<rparr>"

definition hrtime_bigint :: "'s world \<Rightarrow> int \<times> 's world" where
  "hrtime_bigint w = (hrtime w 0, w\<lparr>hrtime := (\<lambda>n. hrtime w (Suc n))\<rparr>)"

definition memoryUsage :: "'s world \<Rightarrow> MemoryUsage \<times> 's world" where
  "memoryUsage w = (memory w 0, w\<lparr>memory := (\<lambda>n. memory w (Suc n))\<rparr>)"

text \<open>
  A call \<open>fn()\<close> either returns or throws, and changes the process as it likes. The value it
  returns is dropped by the harness, so it is not kept. An \<open>async\<close> function never throws at
  the call: it runs up to its first \<open>await\<close>, leaves its remainder in the queue and returns
  a promise.
\<close>

datatype 'e completion = Returned | Threw 'e

type_synonym ('e, 's) operation = "'s world \<Rightarrow> 'e completion \<times> 's world"

definition async :: "('s world \<Rightarrow> 's world) \<Rightarrow> ('s \<Rightarrow> 's) \<Rightarrow> ('e, 's) operation" where
  "async entry remainder w =
     (Returned, (entry w)\<lparr>microtasks := microtasks (entry w) @ [remainder]\<rparr>)"

text \<open>
  Once the running code has returned to the event loop, the queue is emptied in order.
\<close>

definition drain :: "'s world \<Rightarrow> 's world" where
  "drain w = w\<lparr>heap := fold (\<lambda>k h. k h) (microtasks w) (heap w), microtasks := []\<rparr>"

subsection \<open>\<open>measurePerformance\<close>\<close>

text \<open>
  The \<open>for\<close> loop: \<open>for (let i = 0; i < iterations; i++) { fn(); }\<close>. A \<open>throw\<close> of
  \<open>fn\<close> leaves the loop. The iteration count is an integer, as at every call of the harness
  in the repository.
\<close>

function for_loop :: "int \<Rightarrow> int \<Rightarrow> ('e, 's) operation \<Rightarrow> 's world \<Rightarrow> 'e completion \<times> 's world" where
  "for_loop i iterations fn w =
     (if i < iterations
      then (case fn w of
              (Returned, w') \<Rightarrow> for_loop (i + 1) iterations fn w'
            | (Threw e, w') \<Rightarrow> (Threw e, w'))
      else (Returned, w))"
  by pat_completeness auto
termination
  by (relation "measure (\<lambda>(i, iterations, fn, w). nat (iterations - i))") auto

declare for_loop.simps [simp del]

text \<open>
  The loop as the specification words it, for comparison with the code: the completion of each
  invocation is awaited before the next begins. While the harness waits, the event loop runs
  what is queued, so the remainder of the call has run when the next call is issued.
\<close>

function spec_awaiting_loop ::
    "int \<Rightarrow> int \<Rightarrow> ('e, 's) operation \<Rightarrow> 's world \<Rightarrow> 'e completion \<times> 's world" where
  "spec_awaiting_loop i iterations fn w =
     (if i < iterations
      then (case fn w of
              (Returned, w') \<Rightarrow> spec_awaiting_loop (i + 1) iterations fn (drain w')
            | (Threw e, w') \<Rightarrow> (Threw e, w'))
      else (Returned, w))"
  by pat_completeness auto
termination
  by (relation "measure (\<lambda>(i, iterations, fn, w). nat (iterations - i))") auto

declare spec_awaiting_loop.simps [simp del]

text \<open>
  The statements before the loop: the first memory snapshot, the two header lines, the first
  reading of the clock.
\<close>

definition measurePerformance_begin ::
    "(rat \<Rightarrow> string) \<Rightarrow> string \<Rightarrow> int \<Rightarrow> 's world \<Rightarrow> MemoryUsage \<times> int \<times> 's world" where
  "measurePerformance_begin exponential name iterations w0 =
     (let (initialMemory, w1) = memoryUsage w0;
          w2 = console_log (CHR 0x0A # ''Benchmarking: '' @ name) w1;
          w3 = console_log (''Iterations: '' @ toString exponential iterations) w2;
          (startTime, w4) = hrtime_bigint w3
      in (initialMemory, startTime, w4))"

text \<open>
  The statements after the loop: the second reading of the clock, the duration in
  milliseconds, the second memory snapshot, and the six lines of the report. \<open>console.log\<close>
  with two arguments prints them with a blank between.
\<close>

definition measurePerformance_end ::
    "(rat \<Rightarrow> string) \<Rightarrow> MemoryUsage \<Rightarrow> int \<Rightarrow> int \<Rightarrow> 's world \<Rightarrow> 's world" where
  "measurePerformance_end exponential initialMemory startTime iterations w5 =
     (let (endTime, w6) = hrtime_bigint w5;
          duration = js_div (Number_of (endTime - startTime)) (Fin 1000000);
          (finalMemory, w7) = memoryUsage w6;
          w8 = console_log (CHR 0x0A # ''Results:'') w7;
          w9 = console_log (''Total Time: '' @ toFixed exponential 2 duration @ ''ms'') w8;
          w10 = console_log
                  (''Average Time per Operation: '' @
                   toFixed exponential 2 (js_div duration (Fin (of_int iterations))) @ ''ms'') w9;
          w11 = console_log (CHR 0x0A # ''Memory Usage:'') w10;
          w12 = console_log
                  (''Heap Used: '' @
                   formatBytes exponential
                     (Fin (of_int (int (heapUsed finalMemory) - int (heapUsed initialMemory))))) w11;
          w13 = console_log
                  (''Heap Total: '' @
                   formatBytes exponential
                     (Fin (of_int (int (heapTotal finalMemory) - int (heapTotal initialMemory))))) w12
      in console_log
           (''RSS: '' @
            formatBytes exponential
              (Fin (of_int (int (rss finalMemory) - int (rss initialMemory))))) w13)"

text \<open>
  The harness. It is an \<open>async\<close> function without an \<open>await\<close>: its body runs to the end at the
  call, and the promise it returns is fulfilled (\<open>Inr\<close>) or, when \<open>fn\<close> has thrown, rejected
  with what was thrown (\<open>Inl\<close>).
\<close>

definition measurePerformance ::
    "(rat \<Rightarrow> string) \<Rightarrow> string \<Rightarrow> int \<Rightarrow> ('e, 's) operation \<Rightarrow> 's world \<Rightarrow> ('e + unit) \<times> 's world" where
  "measurePerformance exponential name iterations fn w0 =
     (let (initialMemory, startTime, w4) = measurePerformance_begin exponential name iterations w0
      in case for_loop 0 iterations fn w4 of
           (Threw e, w5) \<Rightarrow> (Inl e, w5)
         | (Returned, w5) \<Rightarrow>
             (Inr (), measurePerformance_end exponential initialMemory startTime iterations w5))"

text \<open>
  The state in which the loop starts, and the state after \<open>k\<close> calls of \<open>fn\<close> one after the
  other, each started in the state the one before has left.
\<close>

definition loop_start :: "(rat \<Rightarrow> string) \<Rightarrow> string \<Rightarrow> int \<Rightarrow> 's world \<Rightarrow> 's world" where
  "loop_start exponential name iterations w0 =
     snd (snd (measurePerformance_begin exponential name iterations w0))"

definition invoked :: "('e, 's) operation \<Rightarrow> nat \<Rightarrow> 's world \<Rightarrow> 's world" where
  "invoked fn k w = ((\<lambda>w. snd (fn w)) ^^ k) w"

subsection \<open>Example runs\<close>

text \<open>
  A process that has printed nothing yet. Its clock advances by three milliseconds from one
  reading to the next; between the first memory snapshot and the later ones the heap in use
  shrinks by one megabyte, the heap grows by one megabyte and the resident set by 1536 bytes.
  None of the numbers printed in the example runs reaches \<open>10\<^sup>2\<^sup>1\<close>, so the exponent
  notation is left empty there.
\<close>

definition no_exponential :: "rat \<Rightarrow> string" where
  "no_exponential y = []"

definition fresh :: "'s \<Rightarrow> 's world" where
  "fresh h =
     \<lparr>stdout = [], stderr = [],
      hrtime = (\<lambda>n. 7000000000 + 3000000 * int n),
      memory = (\<lambda>n. if n = 0 then \<lparr>rss = 31457280, heapTotal = 6291456, heapUsed = 4194304\<rparr>
                    else \<lparr>rss = 31458816, heapTotal = 7340032, heapUsed = 3145728\<rparr>),
      heap = h, microtasks = []\<rparr>"

text \<open>
  The same process with a clock whose readings are \<open>step\<close> nanoseconds apart.
\<close>

definition fresh_every :: "int \<Rightarrow> 's \<Rightarrow> 's world" where
  "fresh_every step h = (fresh h)\<lparr>hrtime := (\<lambda>n. 7000000000 + step * int n)\<rparr>"

text \<open>
  Three operations, each a closure over a call counter kept in the heap:
  \<^item> \<open>() => { calls++ }\<close>;
  \<^item> \<open>() => { calls++; if (calls === 3) throw "boom" }\<close>;
  \<^item> \<open>async () => { const c = ++calls; log.push(Entered(c)); await null; log.push(Completed(c)) }\<close>.
\<close>

definition tick :: "('e, nat) operation" where
  "tick w = (Returned, w\<lparr>heap := heap w + 1\<rparr>)"

definition failing_on_third :: "(string, nat) operation" where
  "failing_on_third w =
     (let calls = heap w + 1; w' = w\<lparr>heap := calls\<rparr>
      in if calls = 3 then (Threw ''boom'', w') else (Returned, w'))"

datatype event = Entered nat | Completed nat

definition async_probe :: "('e, nat \<times> event list) operation" where
  "async_probe w =
     (let c = fst (heap w) + 1
      in async (\<lambda>w. w\<lparr>heap := (c, snd (heap w) @ [Entered c])\<rparr>)
               (\<lambda>h. (fst h, snd h @ [Completed c])) w)"

section \<open>Properties\<close>

subsection \<open>The loop\<close>

lemma for_loop_done: "iterations \<le> i \<Longrightarrow> for_loop i iterations fn w = (Returned, w)"
  by (simp add: for_loop.simps)

lemma invoked_0: "invoked fn 0 w = w"
  by (simp add: invoked_def)

lemma invoked_Suc: "invoked fn (Suc k) w = invoked fn k (snd (fn w))"
  unfolding invoked_def by (simp only: funpow_Suc_right comp_apply)

lemma invoked_Suc_last: "invoked fn (Suc k) w = snd (fn (invoked fn k w))"
  by (simp add: invoked_def)

lemma for_loop_returns:
  "(\<forall>k<n. fst (fn (invoked fn k w)) = Returned) \<Longrightarrow>
   for_loop i (i + int n) fn w = (Returned, invoked fn n w)"
proof (induction n arbitrary: i w)
  case 0
  then show ?case by (simp add: for_loop_done invoked_0)
next
  case (Suc n)
  from Suc.prems have first: "fst (fn w) = Returned"
    using invoked_0 [of fn w] by (metis zero_less_Suc)
  have rest: "\<forall>k<n. fst (fn (invoked fn k (snd (fn w)))) = Returned"
    using Suc.prems by (auto simp: invoked_Suc [symmetric])
  have "for_loop i (i + int (Suc n)) fn w = for_loop (i + 1) (i + 1 + int n) fn (snd (fn w))"
    using first by (subst for_loop.simps) (simp add: split_beta add.commute add.left_commute)
  also have "\<dots> = (Returned, invoked fn n (snd (fn w)))"
    using Suc.IH [OF rest] .
  finally show ?case by (simp add: invoked_Suc)
qed

lemma for_loop_throws:
  "(\<forall>j<k. fst (fn (invoked fn j w)) = Returned) \<Longrightarrow>
   fst (fn (invoked fn k w)) = Threw e \<Longrightarrow> k < n \<Longrightarrow>
   for_loop i (i + int n) fn w = (Threw e, invoked fn (Suc k) w)"
proof (induction k arbitrary: i w n)
  case 0
  then have "fst (fn w) = Threw e" by (simp add: invoked_0)
  moreover have "i < i + int n" using 0 by simp
  ultimately show ?case
    by (subst for_loop.simps) (simp add: split_beta invoked_def)
next
  case (Suc k)
  from Suc.prems(1) have first: "fst (fn w) = Returned"
    using invoked_0 [of fn w] by (metis zero_less_Suc)
  have rest: "\<forall>j<k. fst (fn (invoked fn j (snd (fn w)))) = Returned"
    using Suc.prems(1) by (auto simp: invoked_Suc [symmetric])
  have thr: "fst (fn (invoked fn k (snd (fn w)))) = Threw e"
    using Suc.prems(2) by (simp add: invoked_Suc)
  obtain n' where n: "n = Suc n'" and kn: "k < n'"
    using Suc.prems(3) by (cases n) auto
  have "for_loop i (i + int n) fn w = for_loop (i + 1) (i + 1 + int n') fn (snd (fn w))"
    using first n by (subst for_loop.simps) (simp add: split_beta add.commute add.left_commute)
  also have "\<dots> = (Threw e, invoked fn (Suc k) (snd (fn w)))"
    using Suc.IH [OF rest thr kn] .
  finally show ?case by (simp add: invoked_Suc)
qed

lemma for_loop_invoked:
  "\<exists>k. int k \<le> max 0 (N - i) \<and> snd (for_loop i N fn w) = invoked fn k w"
proof (induction i N fn w rule: for_loop.induct)
  case (1 i N fn w)
  show ?case
  proof (cases "i < N")
    case False
    then have "snd (for_loop i N fn w) = invoked fn 0 w"
      by (simp add: for_loop_done invoked_0)
    then show ?thesis by (intro exI [of _ 0]) simp
  next
    case True
    show ?thesis
    proof (cases "fst (fn w)")
      case Returned
      then have call: "fn w = (Returned, snd (fn w))" by (metis prod.collapse)
      from "1.IH" [OF True call [symmetric] refl]
      obtain k where k: "int k \<le> max 0 (N - (i + 1))"
        and eq: "snd (for_loop (i + 1) N fn (snd (fn w))) = invoked fn k (snd (fn w))"
        by blast
      have "for_loop i N fn w = for_loop (i + 1) N fn (snd (fn w))"
        using True Returned by (subst for_loop.simps) (simp add: split_beta)
      then have "snd (for_loop i N fn w) = invoked fn (Suc k) w"
        using eq by (simp add: invoked_Suc)
      moreover have "int (Suc k) \<le> max 0 (N - i)" using k True by simp
      ultimately show ?thesis by blast
    next
      case (Threw e)
      then have "for_loop i N fn w = (Threw e, snd (fn w))"
        using True by (subst for_loop.simps) (simp add: split_beta)
      then have "snd (for_loop i N fn w) = invoked fn (Suc 0) w"
        by (simp add: invoked_def)
      moreover have "int (Suc 0) \<le> max 0 (N - i)" using True by simp
      ultimately show ?thesis by blast
    qed
  qed
qed

subsection \<open>Rounding to the nearest double\<close>

lemma powi_step_up: "(y / 2) * 2 powi (e + 1) = y * (2 powi e :: rat)"
  by (simp add: power_int_add)

lemma powi_step_down: "(y * 2) * 2 powi (e - 1) = y * (2 powi e :: rat)"
  by (simp add: power_int_diff)

lemma binade_spec:
  "0 < y \<Longrightarrow> - 1074 \<le> e \<Longrightarrow>
   fst (binade y e) * 2 powi snd (binade y e) = y * 2 powi e \<and>
   - 1074 \<le> snd (binade y e) \<and> 0 < fst (binade y e) \<and> fst (binade y e) < 2 ^ 53 \<and>
   (2 ^ 52 \<le> fst (binade y e) \<or> snd (binade y e) = - 1074)"
proof (induction y e rule: binade.induct)
  case (1 y e)
  show ?case
  proof (cases "2 ^ 53 \<le> y")
    case True
    then have eq: "binade y e = binade (y / 2) (e + 1)"
      by (subst binade.simps) (simp only: if_True)
    have "0 < y / 2" "- 1074 \<le> e + 1" using "1.prems" by simp_all
    from "1.IH"(1) [OF True this] show ?thesis
      unfolding eq by (simp only: powi_step_up)
  next
    case False
    show ?thesis
    proof (cases "y < 2 ^ 52 \<and> - 1074 < e")
      case True
      have eq: "binade y e = binade (y * 2) (e - 1)"
        by (subst binade.simps) (simp only: False True if_False if_True simp_thms)
      have "0 < y * 2" "- 1074 \<le> e - 1" using "1.prems" True by simp_all
      from "1.IH"(2) [OF False True this] show ?thesis
        unfolding eq by (simp only: powi_step_down)
    next
      case stop: False
      have eq: "binade y e = (y, e)"
        by (subst binade.simps) (simp only: False stop if_False simp_thms)
      show ?thesis unfolding eq using False stop "1.prems" by auto
    qed
  qed
qed

lemma powi_ge_2: "0 < n \<Longrightarrow> 2 \<le> (2 powi n :: rat)"
proof -
  assume "0 < n"
  then have "(2 :: rat) powi 1 \<le> 2 powi n" by (intro power_int_increasing) simp_all
  then show ?thesis by simp
qed

lemma binade_unique:
  fixes y1 y2 :: rat
  assumes "y1 * 2 powi e1 = y2 * 2 powi e2" and "2 ^ 52 \<le> y1" and "y2 < 2 ^ 53"
  shows "e1 \<le> e2"
proof (rule ccontr)
  assume "\<not> e1 \<le> e2"
  then have pos: "0 < e1 - e2" by simp
  have y2: "y2 = y1 * 2 powi (e1 - e2)"
  proof -
    have "y1 * 2 powi (e1 - e2) = y1 * 2 powi e1 / 2 powi e2" by (simp add: power_int_diff)
    also have "\<dots> = y2 * 2 powi e2 / 2 powi e2" by (simp only: assms(1))
    also have "\<dots> = y2" by simp
    finally show ?thesis by simp
  qed
  have step: "y1 * 2 \<le> y1 * 2 powi (e1 - e2)"
    using powi_ge_2 [OF pos] assms(2) by (intro mult_left_mono) simp_all
  have "(2 :: rat) ^ 52 * 2 \<le> y1 * 2" using assms(2) by simp
  also note step
  also have "y1 * 2 powi (e1 - e2) = y2" by (simp only: y2)
  finally have "(2 :: rat) ^ 52 * 2 \<le> y2" .
  then show False using assms(3) by simp
qed

lemma binade_cert:
  fixes yc :: rat
  assumes "2 ^ 52 \<le> yc" and "yc < 2 ^ 53" and "- 1074 \<le> ec"
  shows "binade (yc * 2 powi ec) 0 = (yc, ec)"
proof -
  let ?x = "yc * 2 powi ec"
  have x: "0 < ?x" using assms(1) by (simp add: zero_less_mult_iff)
  have zero: "- 1074 \<le> (0 :: int)" by simp
  note spec = binade_spec [OF x zero]
  let ?y = "fst (binade ?x 0)" and ?e = "snd (binade ?x 0)"
  have eq: "?y * 2 powi ?e = yc * 2 powi ec" using spec by simp
  have normal: "2 ^ 52 \<le> ?y"
  proof (rule ccontr)
    assume small: "\<not> 2 ^ 52 \<le> ?y"
    then have e: "?e = - 1074" using spec by blast
    have "?y * 2 powi ?e < 2 ^ 52 * 2 powi ?e"
      using small by (intro mult_strict_right_mono) simp_all
    also have "\<dots> \<le> 2 ^ 52 * 2 powi ec"
      unfolding e using assms(3) by (intro mult_left_mono power_int_increasing) simp_all
    also have "\<dots> \<le> yc * 2 powi ec"
      using assms(1) by (intro mult_right_mono) simp_all
    finally show False using eq by simp
  qed
  have "?e \<le> ec" using eq normal assms(2) by (rule binade_unique)
  moreover have "ec \<le> ?e"
    using eq [symmetric] assms(1) spec by (intro binade_unique [of yc ec ?y ?e]) simp_all
  ultimately have e: "?e = ec" by simp
  then have "?y = yc" using eq by simp
  with e show ?thesis by (metis prod.collapse)
qed

lemma round_half_even_of_int: "round_half_even (of_int k) = k"
  by (simp add: round_half_even_def)

lemma round_half_even_ge_floor: "\<lfloor>y\<rfloor> \<le> round_half_even y"
  by (simp add: round_half_even_def Let_def)

lemma round_half_even_ge:
  assumes "of_int k \<le> y"
  shows "k \<le> round_half_even y"
proof -
  have "k \<le> \<lfloor>y\<rfloor>" using assms by (simp add: le_floor_iff)
  then show ?thesis using round_half_even_ge_floor [of y] by linarith
qed

lemma binade_scaled:
  fixes x :: rat
  assumes "0 < x"
  shows "fst (binade x 0) = x * 2 powi (- snd (binade x 0))"
proof -
  let ?y = "fst (binade x 0)" and ?e = "snd (binade x 0)"
  have eq: "?y * 2 powi ?e = x"
    using binade_spec [OF assms, of 0] by simp
  have "(2 powi ?e :: rat) \<noteq> 0" by simp
  then have "?y = ?y * 2 powi ?e / 2 powi ?e" by simp
  also have "\<dots> = x / 2 powi ?e" by (simp only: eq)
  also have "\<dots> = x * 2 powi (- ?e)" by (simp add: power_int_minus divide_inverse)
  finally show ?thesis .
qed

lemma to_double_exact:
  assumes "0 < m" and "m < 2 ^ 53" and "- 1074 \<le> e" and "of_int m * 2 powi e < (2 ^ 1024 :: rat)"
  shows "to_double (of_int m * 2 powi e) = Fin (of_int m * 2 powi e)"
proof -
  let ?x = "of_int m * 2 powi e :: rat"
  have x: "0 < ?x" using assms(1) by (simp add: zero_less_mult_iff)
  have zero: "- 1074 \<le> (0 :: int)" by simp
  note spec = binade_spec [OF x zero]
  let ?y = "fst (binade ?x 0)" and ?e = "snd (binade ?x 0)"
  have eq: "?y * 2 powi ?e = ?x" using spec by simp
  have y: "?y = of_int m * 2 powi (e - ?e)"
    using binade_scaled [OF x] by (simp add: power_int_diff power_int_minus field_simps)
  have le: "?e \<le> e"
  proof (rule ccontr)
    assume "\<not> ?e \<le> e"
    then have lt: "e < ?e" by simp
    then have "0 < ?e - e" by simp
    then have "2 \<le> (2 powi (?e - e) :: rat)" by (rule powi_ge_2)
    then have "2 * (2 powi (e - ?e) :: rat) \<le> 2 powi (?e - e) * 2 powi (e - ?e)"
      by (intro mult_right_mono) simp_all
    also have "\<dots> = 1"
      using power_int_add [of "2 :: rat" "?e - e" "e - ?e"] by simp
    finally have "(2 powi (e - ?e) :: rat) \<le> 1 / 2" by simp
    then have "of_int m * (2 powi (e - ?e) :: rat) \<le> of_int m * (1 / 2)"
      using assms(1) by (intro mult_left_mono) simp_all
    moreover have "(of_int m :: rat) < 2 ^ 53"
      using assms(2) by (metis of_int_less_iff of_int_numeral of_int_power)
    ultimately have "?y < 2 ^ 52" using y by simp
    then have "?e = - 1074" using spec by auto
    then show False using lt assms(3) by simp
  qed
  then have "2 powi (e - ?e) = (2 :: rat) ^ nat (e - ?e)" by (simp add: power_int_nonneg_exp)
  then have "?y = of_int (m * 2 ^ nat (e - ?e))" using y by simp
  then have "round_half_even ?y = m * 2 ^ nat (e - ?e)"
    by (simp only: round_half_even_of_int)
  then have r: "of_int (round_half_even ?y) * 2 powi ?e = ?x"
    using \<open>?y = of_int (m * 2 ^ nat (e - ?e))\<close> eq by simp
  have "?x \<noteq> 0" using assms(1) by simp
  then show ?thesis
    using x assms(4) r by (simp add: to_double_def split_beta Let_def del: of_int_mult of_int_power)
qed

lemma to_double_minus: "to_double (- x) = js_neg (to_double x)"
  by (simp add: to_double_def js_neg_def split_beta Let_def)

lemma to_double_eval:
  fixes x :: rat
  assumes "- 1074 \<le> e" and "2 ^ 52 \<le> x * 2 powi (- e)" and "x * 2 powi (- e) < 2 ^ 53"
    and "round_half_even (x * 2 powi (- e)) = m" and "of_int m * 2 powi e < (2 ^ 1024 :: rat)"
  shows "to_double x = Fin (of_int m * 2 powi e)"
proof -
  let ?y = "x * 2 powi (- e)"
  have xy: "x = ?y * 2 powi e" by (simp add: power_int_minus)
  have "binade (?y * 2 powi e) 0 = (?y, e)" using assms(2,3,1) by (rule binade_cert)
  then have b: "binade x 0 = (?y, e)" using xy by simp
  have "0 < ?y" using assms(2) by (rule less_le_trans [rotated]) simp
  then have pos: "0 < x" by (rule zero_less_mult_pos2) simp
  then have "\<bar>x\<bar> = x" "x \<noteq> 0" by simp_all
  then show ?thesis
    using pos b assms(4,5) by (simp add: to_double_def Let_def)
qed

lemma to_double_lower:
  fixes x :: rat
  assumes "2 powi k \<le> x" and "- 1074 \<le> k"
  shows "to_double x = PInf \<or> (\<exists>r. to_double x = Fin r \<and> 2 powi k \<le> r)"
proof -
  have x: "0 < x" using assms(1) by (rule less_le_trans [rotated]) simp
  have zero: "- 1074 \<le> (0 :: int)" by simp
  note spec = binade_spec [OF x zero]
  let ?y = "fst (binade x 0)" and ?e = "snd (binade x 0)"
  let ?r = "of_int (round_half_even ?y) * 2 powi ?e :: rat"
  have eq: "?y * 2 powi ?e = x" using spec by simp
  have "2 powi k \<le> ?r"
  proof (cases "?e \<le> k")
    case True
    then have p: "2 powi (k - ?e) = (2 :: rat) ^ nat (k - ?e)" by (simp add: power_int_nonneg_exp)
    have "2 powi (k - ?e) \<le> ?y"
    proof -
      have "2 powi (k - ?e) = 2 powi k * (2 powi (- ?e) :: rat)"
        by (simp add: power_int_diff power_int_minus field_simps)
      also have "\<dots> \<le> x * 2 powi (- ?e)" using assms(1) by (intro mult_right_mono) simp_all
      also have "\<dots> = ?y" using binade_scaled [OF x] by simp
      finally show ?thesis .
    qed
    then have "of_int (2 ^ nat (k - ?e)) \<le> ?y" using p by simp
    then have "2 ^ nat (k - ?e) \<le> round_half_even ?y" by (rule round_half_even_ge)
    then have "(of_int (2 ^ nat (k - ?e)) :: rat) \<le> of_int (round_half_even ?y)"
      by (simp only: of_int_le_iff)
    then have "2 powi (k - ?e) \<le> (of_int (round_half_even ?y) :: rat)" using p by simp
    then have "2 powi (k - ?e) * 2 powi ?e \<le> ?r" by (intro mult_right_mono) simp_all
    then show ?thesis by (simp add: power_int_diff)
  next
    case False
    then have "- 1074 < ?e" using assms(2) by simp
    then have "2 ^ 52 \<le> ?y" using spec by auto
    then have "of_int (2 ^ 52) \<le> ?y" by simp
    then have "2 ^ 52 \<le> round_half_even ?y" by (rule round_half_even_ge)
    then have one: "(1 :: rat) \<le> of_int (round_half_even ?y)" by simp
    have "(2 powi k :: rat) \<le> 2 powi ?e"
      using False by (intro power_int_increasing) simp_all
    also have "\<dots> = 1 * 2 powi ?e" by simp
    also have "\<dots> \<le> ?r" using one by (intro mult_right_mono) simp_all
    finally show ?thesis .
  qed
  moreover have "\<bar>x\<bar> = x" "x \<noteq> 0" using x by simp_all
  ultimately show ?thesis
    using x by (simp add: to_double_def split_beta Let_def)
qed

subsection \<open>Printing\<close>

lemma decimal_small: "n < 10 \<Longrightarrow> decimal n = [digit n]"
  by (subst decimal.simps) simp

lemma decimal_step: "10 \<le> n \<Longrightarrow> decimal n = decimal (n div 10) @ [digit (n mod 10)]"
  by (subst decimal.simps) simp

lemma decimal_not_empty: "decimal n \<noteq> []"
  by (subst decimal.simps) simp

lemma length_decimal_pos: "0 < length (decimal n)"
  using decimal_not_empty [of n] by simp

lemma decimal_two_steps:
  assumes "100 \<le> n"
  shows "decimal n = decimal (n div 100) @ [digit (n div 10 mod 10), digit (n mod 10)]"
proof -
  have "10 \<le> n div 10" using assms by simp
  then have "decimal (n div 10) = decimal (n div 10 div 10) @ [digit (n div 10 mod 10)]"
    by (rule decimal_step)
  moreover have "n div 10 div 10 = n div 100" by (simp add: div_mult2_eq)
  moreover have "decimal n = decimal (n div 10) @ [digit (n mod 10)]"
    using assms by (intro decimal_step) simp
  ultimately show ?thesis by simp
qed

lemma digit_code: "d < 10 \<Longrightarrow> of_char (digit d) = 48 + d"
proof -
  assume "d < 10"
  then have "d = 0 \<or> d = 1 \<or> d = 2 \<or> d = 3 \<or> d = 4 \<or> d = 5 \<or> d = 6 \<or> d = 7 \<or> d = 8 \<or> d = 9"
    by arith
  then show ?thesis by (elim disjE) (simp_all add: digit_def)
qed

lemma digits_value_snoc: "digits_value (ds @ [c]) = 10 * digits_value ds + (of_char c - 48)"
  by (simp add: digits_value_def)

lemma digits_value_decimal: "digits_value (decimal n) = n"
proof (induction n rule: decimal.induct)
  case (1 n)
  show ?case
  proof (cases "n < 10")
    case True
    then show ?thesis by (simp add: decimal_small digits_value_def digit_code)
  next
    case False
    then have "decimal n = decimal (n div 10) @ [digit (n mod 10)]" by (simp add: decimal_step)
    moreover have "digits_value (decimal (n div 10)) = n div 10" using False by (rule "1.IH")
    ultimately show ?thesis by (simp add: digits_value_snoc digit_code)
  qed
qed

lemma digit_0: "digit 0 = CHR ''0''"
  by (simp add: digit_def)

lemma replicate_2: "replicate 2 c = [c, c]"
  by (simp add: numeral_2_eq_2)

lemma padded_two_decimals:
  "(let m = decimal n;
        m = (if (2::nat) \<noteq> 0 \<and> length m \<le> 2 then replicate (2 + 1 - length m) CHR ''0'' @ m else m);
        k = length m
    in (if (2::nat) \<noteq> 0 then take (k - 2) m @ ''.'' @ drop (k - 2) m else m)) = two_decimals n"
proof -
  consider (one) "n < 10" | (two) "10 \<le> n" "n < 100" | (more) "100 \<le> n" by linarith
  then show ?thesis
  proof cases
    case one
    then have "decimal n = [digit n]" by (rule decimal_small)
    moreover have "n div 100 = 0" "n div 10 mod 10 = 0" "n mod 10 = n" using one by simp_all
    ultimately show ?thesis
      by (simp add: two_decimals_def decimal_small digit_0 replicate_2)
  next
    case two
    then have "n div 10 < 10" by simp
    then have "decimal n = [digit (n div 10), digit (n mod 10)]"
      using two by (simp add: decimal_step decimal_small)
    moreover have "n div 100 = 0" "n div 10 mod 10 = n div 10" using two by simp_all
    ultimately show ?thesis
      by (simp add: two_decimals_def decimal_small digit_0)
  next
    case more
    then have d: "decimal n = decimal (n div 100) @ [digit (n div 10 mod 10), digit (n mod 10)]"
      by (rule decimal_two_steps)
    have "0 < length (decimal (n div 100))" by (rule length_decimal_pos)
    then show ?thesis
      by (simp add: d two_decimals_def Let_def)
  qed
qed

lemma toFixed_2_Fin:
  assumes "\<bar>x\<bar> < 10 ^ 21"
  shows "toFixed ex 2 (Fin x) =
         (if x < 0 then ''-'' else '''') @ two_decimals (nat \<lfloor>\<bar>x\<bar> * 100 + 1 / 2\<rfloor>)"
proof -
  have "\<not> 10 ^ 21 \<le> \<bar>x\<bar>" using assms by simp
  then show ?thesis
    using padded_two_decimals [of "nat \<lfloor>\<bar>x\<bar> * 100 + 1 / 2\<rfloor>"]
    by (simp add: toFixed_def Let_def)
qed

lemma nearest_hundredth:
  fixes y :: rat
  assumes "0 \<le> y"
  shows "\<bar>of_nat (nat \<lfloor>y * 100 + 1 / 2\<rfloor>) / 100 - y\<bar> \<le> 1 / 200"
proof -
  let ?z = "\<lfloor>y * 100 + 1 / 2\<rfloor>"
  have nonneg: "0 \<le> ?z" using assms by simp
  have lo: "of_int ?z \<le> y * 100 + 1 / 2" by (rule of_int_floor_le)
  have hi: "y * 100 + 1 / 2 < of_int ?z + 1" by linarith
  have "of_nat (nat ?z) = (of_int ?z :: rat)" using nonneg by simp
  moreover have "\<bar>of_int ?z / 100 - y\<bar> \<le> 1 / 200" using lo hi by linarith
  ultimately show ?thesis by simp
qed

lemma last_unit: "length units - 1 = 3"
  by (simp add: units_def)

lemma formatBytes_loop_stop:
  "\<not> (js_ge v (Fin 1024) \<and> u < 3) \<Longrightarrow> formatBytes_loop v u = (v, u)"
  by (subst formatBytes_loop.simps) (simp only: last_unit if_False)

lemma formatBytes_loop_step:
  "js_ge v (Fin 1024) \<Longrightarrow> u < 3 \<Longrightarrow>
   formatBytes_loop v u = formatBytes_loop (js_div v (Fin 1024)) (Suc u)"
  by (subst formatBytes_loop.simps) (simp only: last_unit simp_thms if_True Suc_eq_plus1)

lemma pow_1024: "(1024 :: rat) ^ j = 2 powi (10 * int j)"
proof -
  have "(1024 :: rat) ^ j = (2 ^ 10) ^ j" by simp
  also have "\<dots> = 2 ^ (10 * j)" by (simp only: power_mult)
  also have "\<dots> = 2 powi int (10 * j)" by (simp only: power_int_of_nat)
  finally show ?thesis by simp
qed

lemma js_div_1024:
  assumes "0 < n" and "n < 2 ^ 53" and "j \<le> 2"
  shows "js_div (Fin (of_int n / 1024 ^ j)) (Fin 1024) = Fin (of_int n / 1024 ^ Suc j)"
proof -
  let ?e = "- (10 * int (Suc j))"
  have q: "of_int n / 1024 ^ Suc j = (of_int n * 2 powi ?e :: rat)"
    by (simp only: pow_1024 power_int_minus divide_inverse)
  have "- 1074 \<le> ?e" using assms(3) by simp
  moreover have "of_int n * 2 powi ?e < (2 ^ 1024 :: rat)"
  proof -
    have "(2 powi ?e :: rat) \<le> 2 powi 0" by (intro power_int_increasing) simp_all
    then have "of_int n * (2 powi ?e :: rat) \<le> of_int n * 1"
      using assms(1) by (intro mult_left_mono) simp_all
    moreover have "(of_int n :: rat) < 2 ^ 53"
      using assms(2) by (metis of_int_less_iff of_int_numeral of_int_power)
    ultimately show ?thesis by simp
  qed
  ultimately have "to_double (of_int n * 2 powi ?e) = Fin (of_int n * 2 powi ?e)"
    using assms(1,2) by (intro to_double_exact)
  then have "to_double (of_int n / 1024 ^ Suc j) = Fin (of_int n / 1024 ^ Suc j)"
    by (simp only: q)
  moreover have "of_int n / 1024 ^ j / 1024 = (of_int n / 1024 ^ Suc j :: rat)" by simp
  ultimately show ?thesis by (simp only: js_div.simps) simp
qed

lemma formatBytes_loop_int:
  assumes "0 \<le> n" and "n < 2 ^ 53"
  shows "formatBytes_loop (Fin (of_int n)) 0 =
           (Fin (of_int n / 1024 ^ loop_unit (of_int n)), loop_unit (of_int n))"
proof -
  let ?x = "of_int n :: rat"
  have step: "formatBytes_loop (Fin (?x / 1024 ^ j)) j = formatBytes_loop (Fin (?x / 1024 ^ Suc j)) (Suc j)"
    if "1024 \<le> ?x / 1024 ^ j" and "j \<le> 2" for j
  proof -
    have "0 < ?x / 1024 ^ j" using that(1) by (rule less_le_trans [rotated]) simp
    then have "0 < ?x" by (simp add: zero_less_divide_iff)
    then have n: "0 < n" by simp
    have "js_ge (Fin (?x / 1024 ^ j)) (Fin 1024)" using that(1) by simp
    moreover have "j < 3" using that(2) by simp
    ultimately have "formatBytes_loop (Fin (?x / 1024 ^ j)) j =
        formatBytes_loop (js_div (Fin (?x / 1024 ^ j)) (Fin 1024)) (Suc j)"
      by (rule formatBytes_loop_step)
    then show ?thesis by (simp only: js_div_1024 [OF n assms(2) that(2)])
  qed
  have stop: "formatBytes_loop (Fin (?x / 1024 ^ j)) j = (Fin (?x / 1024 ^ j), j)"
    if "?x / 1024 ^ j < 1024 \<or> j = 3" for j
    using that by (intro formatBytes_loop_stop) auto
  have start: "formatBytes_loop (Fin ?x) 0 = formatBytes_loop (Fin (?x / 1024 ^ 0)) 0" by simp
  consider (b) "?x < 1024" | (kb) "1024 \<le> ?x" "?x / 1024 < 1024"
    | (mb) "1024 \<le> ?x" "1024 \<le> ?x / 1024" "?x / 1024 ^ 2 < 1024"
    | (gb) "1024 \<le> ?x" "1024 \<le> ?x / 1024" "1024 \<le> ?x / 1024 ^ 2"
    by linarith
  then show ?thesis
  proof cases
    case b
    then have "loop_unit ?x = 0" by (simp add: loop_unit_def)
    then show ?thesis using stop [of 0] b by simp
  next
    case kb
    then have u: "loop_unit ?x = 1" by (simp add: loop_unit_def)
    have "formatBytes_loop (Fin ?x) 0 = formatBytes_loop (Fin (?x / 1024 ^ Suc 0)) (Suc 0)"
      using step [of 0] kb by simp
    also have "\<dots> = (Fin (?x / 1024 ^ Suc 0), Suc 0)" using stop [of "Suc 0"] kb by simp
    finally show ?thesis using u by simp
  next
    case mb
    then have u: "loop_unit ?x = 2" by (simp add: loop_unit_def)
    have "formatBytes_loop (Fin ?x) 0 = formatBytes_loop (Fin (?x / 1024 ^ Suc 0)) (Suc 0)"
      using step [of 0] mb by simp
    also have "\<dots> = formatBytes_loop (Fin (?x / 1024 ^ Suc (Suc 0))) (Suc (Suc 0))"
      using step [of "Suc 0"] mb by simp
    also have "\<dots> = (Fin (?x / 1024 ^ Suc (Suc 0)), Suc (Suc 0))"
      using stop [of "Suc (Suc 0)"] mb by (simp add: power2_eq_square)
    finally show ?thesis using u by (simp add: numeral_2_eq_2)
  next
    case gb
    then have u: "loop_unit ?x = 3" by (simp add: loop_unit_def)
    have three: "Suc (Suc (Suc 0)) = 3" by simp
    have "formatBytes_loop (Fin ?x) 0 = formatBytes_loop (Fin (?x / 1024 ^ Suc 0)) (Suc 0)"
      using step [of 0] gb by simp
    also have "\<dots> = formatBytes_loop (Fin (?x / 1024 ^ Suc (Suc 0))) (Suc (Suc 0))"
      using step [of "Suc 0"] gb by simp
    also have "\<dots> = formatBytes_loop (Fin (?x / 1024 ^ Suc (Suc (Suc 0)))) (Suc (Suc (Suc 0)))"
      using step [of "Suc (Suc 0)"] gb by (simp add: power2_eq_square)
    also have "\<dots> = (Fin (?x / 1024 ^ Suc (Suc (Suc 0))), Suc (Suc (Suc 0)))"
      by (rule stop) (simp only: three simp_thms)
    finally show ?thesis using u by (simp only: three)
  qed
qed

lemma loop_unit_nonneg: "0 \<le> x \<Longrightarrow> loop_unit x = spec_unit x"
  by (simp add: loop_unit_def spec_unit_def)

lemma formatBytes_eq_spec_humanizer:
  assumes "0 \<le> n" and "n < 2 ^ 53"
  shows "formatBytes ex (Fin (of_int n)) = spec_humanizer ex (of_int n)"
  using assms by (simp add: formatBytes_def formatBytes_loop_int spec_humanizer_def loop_unit_nonneg)

lemma formatBytes_numeral:
  "(numeral k :: int) < 2 ^ 53 \<Longrightarrow>
   formatBytes ex (Fin (numeral k)) = spec_humanizer ex (numeral k)"
  using formatBytes_eq_spec_humanizer [of "numeral k" ex] by simp

lemma formatBytes_zero: "formatBytes ex (Fin 0) = spec_humanizer ex 0"
  using formatBytes_eq_spec_humanizer [of 0 ex] by simp

lemma formatBytes_below_zero: "x < 0 \<Longrightarrow> formatBytes ex (Fin x) = toFixed ex 2 (Fin x) @ '' B''"
proof -
  assume "x < 0"
  then have "\<not> (js_ge (Fin x) (Fin 1024) \<and> (0 :: nat) < 3)" by simp
  then have "formatBytes_loop (Fin x) 0 = (Fin x, 0)" by (rule formatBytes_loop_stop)
  then show ?thesis by (simp add: formatBytes_def units_def)
qed

lemma to_double_int:
  assumes "0 < n" and "n < 2 ^ 53"
  shows "to_double (of_int n) = Fin (of_int n)"
proof -
  have "(of_int n :: rat) < 2 ^ 53"
    using assms(2) by (metis of_int_less_iff of_int_numeral of_int_power)
  then have "of_int n * 2 powi 0 < (2 ^ 1024 :: rat)" by simp
  then have "to_double (of_int n * 2 powi 0) = Fin (of_int n * 2 powi 0)"
    using assms by (intro to_double_exact) simp_all
  then show ?thesis by simp
qed

lemma to_double_numeral:
  "(numeral k :: int) < 2 ^ 53 \<Longrightarrow> to_double (numeral k) = Fin (numeral k)"
  using to_double_int [of "numeral k"] by simp

lemma to_double_0: "to_double 0 = Fin 0"
  by (simp add: to_double_def)

lemma to_double_1: "to_double 1 = Fin 1"
  using to_double_int [of 1] by simp

lemma floor_rat_numeral: "\<lfloor>numeral a / numeral b :: rat\<rfloor> = numeral a div numeral b"
  by (metis floor_divide_of_int_eq of_int_numeral)

lemma round_half_even_numeral:
  "round_half_even (numeral a / numeral b) =
     (let f = numeral a div numeral b; d = (numeral a / numeral b :: rat) - of_int f
      in if d < 1 / 2 then f else if 1 / 2 < d then f + 1 else if even f then f else f + 1)"
  by (simp only: round_half_even_def floor_rat_numeral)

lemma to_double_examples:
  "to_double (3 / 2) = Fin (3 / 2)"
  "to_double (3 / 200) = Fin (1080863910568919 / 72057594037927936)"
  "to_double (201 / 200) = Fin (1131529406376837 / 1125899906842624)"
proof -
  show "to_double (3 / 2) = Fin (3 / 2)"
    using to_double_eval [of "- 52" "3 / 2" 6755399441055744]
    by (simp add: round_half_even_def)
  show "to_double (3 / 200) = Fin (1080863910568919 / 72057594037927936)"
    using to_double_eval [of "- 59" "3 / 200" 8646911284551352]
    by (simp add: round_half_even_numeral Let_def)
  show "to_double (201 / 200) = Fin (1131529406376837 / 1125899906842624)"
    using to_double_eval [of "- 52" "201 / 200" 4526117625507348]
    by (simp add: round_half_even_numeral Let_def)
qed

lemma formatBytes_loop_le_3: "u \<le> 3 \<Longrightarrow> snd (formatBytes_loop v u) \<le> 3"
proof (induction v u rule: formatBytes_loop.induct)
  case (1 v u)
  show ?case
  proof (cases "js_ge v (Fin 1024) \<and> u < 3")
    case True
    then have "formatBytes_loop v u = formatBytes_loop (js_div v (Fin 1024)) (u + 1)"
      by (simp add: formatBytes_loop_step)
    moreover have "snd (formatBytes_loop (js_div v (Fin 1024)) (u + 1)) \<le> 3"
      using True by (intro "1.IH") (simp_all add: units_def)
    ultimately show ?thesis by simp
  next
    case False
    then show ?thesis using "1.prems" by (simp add: formatBytes_loop_stop)
  qed
qed

lemma decimal_numeral:
  "decimal (numeral k) =
     (if (numeral k :: nat) < 10 then [digit (numeral k)]
      else decimal (numeral k div 10) @ [digit (numeral k mod 10)])"
  by (rule decimal.simps)

lemma digits:
  "digit 0 = CHR ''0''" "digit 1 = CHR ''1''" "digit (Suc 0) = CHR ''1''" "digit 2 = CHR ''2''" "digit 3 = CHR ''3''"
  "digit 4 = CHR ''4''" "digit 5 = CHR ''5''" "digit 6 = CHR ''6''" "digit 7 = CHR ''7''"
  "digit 8 = CHR ''8''" "digit 9 = CHR ''9''"
  by (simp_all add: digit_def)

lemmas show_nat = decimal_numeral decimal_small digits two_decimals_def floor_rat_numeral

subsection \<open>The statements around the loop\<close>

lemma loop_start_fields:
  "stdout (loop_start ex name N w) =
     stdout w @ [CHR 0x0A # ''Benchmarking: '' @ name, ''Iterations: '' @ toString ex N]"
  "stderr (loop_start ex name N w) = stderr w"
  "heap (loop_start ex name N w) = heap w"
  "microtasks (loop_start ex name N w) = microtasks w"
  "hrtime (loop_start ex name N w) = (\<lambda>n. hrtime w (Suc n))"
  "memory (loop_start ex name N w) = (\<lambda>n. memory w (Suc n))"
  by (simp_all add: loop_start_def measurePerformance_begin_def memoryUsage_def
      hrtime_bigint_def console_log_def)

lemma measurePerformance_begin_eq:
  "measurePerformance_begin ex name N w = (memory w 0, hrtime w 0, loop_start ex name N w)"
  by (simp add: loop_start_def measurePerformance_begin_def memoryUsage_def
      hrtime_bigint_def console_log_def)

lemma measurePerformance_end_fields:
  "stdout (measurePerformance_end ex m0 t0 N w) =
     stdout w @
     [CHR 0x0A # ''Results:'',
      ''Total Time: '' @ toFixed ex 2 (js_div (Number_of (hrtime w 0 - t0)) (Fin 1000000)) @ ''ms'',
      ''Average Time per Operation: '' @
        toFixed ex 2 (js_div (js_div (Number_of (hrtime w 0 - t0)) (Fin 1000000)) (Fin (of_int N))) @ ''ms'',
      CHR 0x0A # ''Memory Usage:'',
      ''Heap Used: '' @ formatBytes ex (Fin (of_int (int (heapUsed (memory w 0)) - int (heapUsed m0)))),
      ''Heap Total: '' @ formatBytes ex (Fin (of_int (int (heapTotal (memory w 0)) - int (heapTotal m0)))),
      ''RSS: '' @ formatBytes ex (Fin (of_int (int (rss (memory w 0)) - int (rss m0))))]"
  "stderr (measurePerformance_end ex m0 t0 N w) = stderr w"
  "heap (measurePerformance_end ex m0 t0 N w) = heap w"
  "microtasks (measurePerformance_end ex m0 t0 N w) = microtasks w"
  "hrtime (measurePerformance_end ex m0 t0 N w) = (\<lambda>n. hrtime w (Suc n))"
  "memory (measurePerformance_end ex m0 t0 N w) = (\<lambda>n. memory w (Suc n))"
  by (simp_all add: measurePerformance_end_def memoryUsage_def hrtime_bigint_def
      console_log_def Let_def)

lemma measurePerformance_returned:
  "for_loop 0 N fn (loop_start ex name N w) = (Returned, w5) \<Longrightarrow>
   measurePerformance ex name N fn w =
     (Inr (), measurePerformance_end ex (memory w 0) (hrtime w 0) N w5)"
  by (simp add: measurePerformance_def measurePerformance_begin_eq)

lemma measurePerformance_threw:
  "for_loop 0 N fn (loop_start ex name N w) = (Threw e, w5) \<Longrightarrow>
   measurePerformance ex name N fn w = (Inl e, w5)"
  by (simp add: measurePerformance_def measurePerformance_begin_eq)

lemma for_loop_returns_0:
  assumes "0 \<le> N" and "\<forall>k<nat N. fst (fn (invoked fn k w)) = Returned"
  shows "for_loop 0 N fn w = (Returned, invoked fn (nat N) w)"
  using for_loop_returns [of "nat N" fn w 0] assms by simp

lemma for_loop_throws_0:
  assumes "\<forall>j<k. fst (fn (invoked fn j w)) = Returned"
    and "fst (fn (invoked fn k w)) = Threw e" and "int k < N"
  shows "for_loop 0 N fn w = (Threw e, invoked fn (Suc k) w)"
proof -
  have "k < nat N" "0 \<le> N" using assms(3) by simp_all
  then show ?thesis using for_loop_throws [of k fn w e "nat N" 0] assms(1,2) by simp
qed

subsection \<open>The example operations\<close>

lemma fresh_fields:
  "stdout (fresh h) = []" "stderr (fresh h) = []" "heap (fresh h) = h" "microtasks (fresh h) = []"
  "hrtime (fresh h) n = 7000000000 + 3000000 * int n"
  "memory (fresh h) 0 = \<lparr>rss = 31457280, heapTotal = 6291456, heapUsed = 4194304\<rparr>"
  "memory (fresh h) (Suc n) = \<lparr>rss = 31458816, heapTotal = 7340032, heapUsed = 3145728\<rparr>"
  by (simp_all add: fresh_def)

lemma invoked_tick: "invoked tick k w = w\<lparr>heap := heap w + k\<rparr>"
proof (induction k)
  case 0
  then show ?case by (simp add: invoked_0)
next
  case (Suc k)
  then show ?case by (simp add: invoked_Suc_last tick_def)
qed

lemma tick_returns: "fst (tick w) = Returned"
  by (simp add: tick_def)

lemma invoked_failing_on_third:
  "k \<le> 3 \<Longrightarrow> heap w = 0 \<Longrightarrow> invoked failing_on_third k w = w\<lparr>heap := k\<rparr>"
proof (induction k)
  case 0
  then show ?case by (simp add: invoked_0)
next
  case (Suc k)
  then have prev: "invoked failing_on_third k w = w\<lparr>heap := k\<rparr>" by simp
  have step: "snd (failing_on_third (w\<lparr>heap := k\<rparr>)) = w\<lparr>heap := Suc k\<rparr>"
    by (simp add: failing_on_third_def Let_def)
  show ?case by (simp only: invoked_Suc_last prev step)
qed

lemmas report_text =
  measurePerformance_end_fields loop_start_fields fresh_fields formatBytes_numeral
  formatBytes_zero formatBytes_below_zero spec_humanizer_def spec_unit_def toFixed_2_Fin
  show_nat units_def toString_def Number_of_def to_double_numeral to_double_0 to_double_1
  to_double_examples to_double_minus js_neg_def

lemma invoked_async_probe:
  "invoked async_probe k w =
     w\<lparr>heap := (fst (heap w) + k,
                snd (heap w) @ map Entered [fst (heap w) + 1 ..< fst (heap w) + 1 + k]),
       microtasks := microtasks w @
                map (\<lambda>c h. (fst h, snd h @ [Completed c])) [fst (heap w) + 1 ..< fst (heap w) + 1 + k]\<rparr>"
proof (induction k)
  case 0
  then show ?case by (simp add: invoked_0)
next
  case (Suc k)
  show ?case
    unfolding invoked_Suc_last Suc.IH
    by (simp add: async_probe_def async_def Let_def)
qed

lemma async_probe_returns: "fst (async_probe w) = Returned"
  by (simp add: async_probe_def async_def Let_def)

lemma toFixed_not_finite:
  "toFixed ex f NaN = ''NaN''" "toFixed ex f PInf = ''Infinity''" "toFixed ex f NInf = ''-Infinity''"
  by (simp_all add: toFixed_def)


lemma two_ticks:
  "for_loop 0 2 (tick :: (string, nat) operation) (loop_start no_exponential ''x'' 2 (fresh 0)) =
     (Returned, (loop_start no_exponential ''x'' 2 (fresh 0))\<lparr>heap := 2\<rparr>)"
proof -
  have "for_loop 0 2 (tick :: (string, nat) operation) (loop_start no_exponential ''x'' 2 (fresh 0)) =
      (Returned, invoked (tick :: (string, nat) operation) (nat 2)
                   (loop_start no_exponential ''x'' 2 (fresh 0)))"
    by (intro for_loop_returns_0) (simp_all add: tick_returns)
  then show ?thesis by (simp add: invoked_tick loop_start_fields fresh_fields)
qed

lemma formatBytes_examples:
  "formatBytes ex (Fin 0) = ''0.00 B''"
  "formatBytes ex (Fin 1024) = ''1.00 KB''"
  "formatBytes ex (Fin 1536) = ''1.50 KB''"
  "formatBytes ex (Fin 1048576) = ''1.00 MB''"
  by (simp_all add: report_text)

lemma for_loop_async_probe:
  "for_loop 0 N (async_probe :: ('e, nat \<times> event list) operation) w =
     (Returned, invoked (async_probe :: ('e, nat \<times> event list) operation) (nat N) w)"
proof (cases "0 \<le> N")
  case True
  then show ?thesis by (intro for_loop_returns_0) (simp_all add: async_probe_returns)
next
  case False
  then show ?thesis by (simp add: for_loop_done invoked_0)
qed

lemma measurePerformance_async_probe:
  "measurePerformance ex name N (async_probe :: ('e, nat \<times> event list) operation) w =
     (Inr (), measurePerformance_end ex (memory w 0) (hrtime w 0) N
                (invoked (async_probe :: ('e, nat \<times> event list) operation) (nat N)
                   (loop_start ex name N w)))"
  using for_loop_async_probe by (rule measurePerformance_returned)

lemma spec_awaiting_loop_async_probe:
  "snd (heap (snd (spec_awaiting_loop 0 2 (async_probe :: (string, nat \<times> event list) operation)
                     (fresh (0, []))))) =
     [Entered 1, Completed 1, Entered 2, Completed 2]"
  by (simp add: spec_awaiting_loop.simps [of 0 2] spec_awaiting_loop.simps [of 1 2]
      spec_awaiting_loop.simps [of 2 2] async_probe_def async_def drain_def Let_def fresh_fields)

lemma failed_run:
  "measurePerformance no_exponential ''x'' 5 failing_on_third (fresh 0) =
     (Inl ''boom'', (loop_start no_exponential ''x'' 5 (fresh 0))\<lparr>heap := 3\<rparr>)"
proof -
  let ?w = "loop_start no_exponential ''x'' 5 (fresh (0::nat))"
  have h: "heap ?w = 0" by (simp add: loop_start_fields fresh_fields)
  have inv: "\<And>k. k \<le> 3 \<Longrightarrow> invoked failing_on_third k ?w = ?w\<lparr>heap := k\<rparr>"
    using h by (rule invoked_failing_on_third [rotated])
  have "for_loop 0 5 failing_on_third ?w = (Threw ''boom'', invoked failing_on_third (Suc 2) ?w)"
  proof (rule for_loop_throws_0)
    show "\<forall>j<2. fst (failing_on_third (invoked failing_on_third j ?w)) = Returned"
    proof (intro allI impI)
      fix j :: nat
      assume "j < 2"
      then have "j \<le> 3" "j \<noteq> 2" by simp_all
      then show "fst (failing_on_third (invoked failing_on_third j ?w)) = Returned"
        by (simp add: inv failing_on_third_def Let_def)
    qed
    show "fst (failing_on_third (invoked failing_on_third 2 ?w)) = Threw ''boom''"
      by (simp add: inv failing_on_third_def Let_def)
    show "int 2 < 5" by simp
  qed
  then have "measurePerformance no_exponential ''x'' 5 failing_on_third (fresh 0) =
      (Inl ''boom'', invoked failing_on_third (Suc 2) ?w)"
    by (rule measurePerformance_threw)
  moreover have "invoked failing_on_third (Suc 2) ?w = ?w\<lparr>heap := 3\<rparr>"
    using inv [of 3] by (simp add: eval_nat_numeral)
  ultimately show ?thesis by simp
qed

lemma run_after_failed_run:
  "fst (measurePerformance no_exponential ''y'' 3 (tick :: (string, nat) operation)
          (snd (measurePerformance no_exponential ''x'' 5 failing_on_third (fresh 0)))) = Inr () \<and>
   heap (snd (measurePerformance no_exponential ''y'' 3 (tick :: (string, nat) operation)
          (snd (measurePerformance no_exponential ''x'' 5 failing_on_third (fresh 0))))) = 6"
proof -
  let ?tick = "tick :: (string, nat) operation"
  let ?w1 = "(loop_start no_exponential ''x'' 5 (fresh (0::nat)))\<lparr>heap := 3\<rparr>"
  have "for_loop 0 3 ?tick (loop_start no_exponential ''y'' 3 ?w1) =
      (Returned, invoked ?tick (nat 3) (loop_start no_exponential ''y'' 3 ?w1))"
    by (intro for_loop_returns_0) (simp_all add: tick_returns)
  then have "measurePerformance no_exponential ''y'' 3 ?tick ?w1 =
      (Inr (), measurePerformance_end no_exponential (memory ?w1 0) (hrtime ?w1 0) 3
                 (invoked ?tick (nat 3) (loop_start no_exponential ''y'' 3 ?w1)))"
    by (rule measurePerformance_returned)
  then show ?thesis
    unfolding failed_run snd_conv
    by (simp add: measurePerformance_end_fields invoked_tick loop_start_fields)
qed

lemma js_div_neg:
  assumes "0 < b"
  shows "js_div (js_neg v) (Fin b) = js_neg (js_div v (Fin b))"
  using assms by (cases v) (simp_all add: js_neg_def to_double_minus)

lemma Number_of_minus: "Number_of (- d) = js_neg (Number_of d)"
  by (simp add: Number_of_def to_double_minus)

lemma duration_positive:
  assumes "0 < d"
  shows "js_div (Number_of d) (Fin 1000000) = PInf \<or>
         (\<exists>t. js_div (Number_of d) (Fin 1000000) = Fin t \<and> 0 < t)"
proof -
  have "(2 powi 0 :: rat) \<le> of_int d" using assms by simp
  then have "to_double (of_int d) = PInf \<or> (\<exists>r. to_double (of_int d) = Fin r \<and> 2 powi 0 \<le> r)"
    by (rule to_double_lower) simp
  then show ?thesis
  proof
    assume "to_double (of_int d) = PInf"
    then show ?thesis by (simp add: Number_of_def)
  next
    assume "\<exists>r. to_double (of_int d) = Fin r \<and> 2 powi 0 \<le> r"
    then obtain r :: rat where r: "to_double (of_int d) = Fin r" and one: "1 \<le> r" by auto
    have "(2 powi (- 20) :: rat) \<le> 1 / 1000000" by simp
    also have "\<dots> \<le> r / 1000000" using one by (simp add: divide_right_mono)
    finally have "2 powi (- 20) \<le> r / 1000000" .
    then have "to_double (r / 1000000) = PInf \<or>
        (\<exists>t. to_double (r / 1000000) = Fin t \<and> 2 powi (- 20) \<le> t)"
      by (rule to_double_lower) simp
    moreover have "0 < t" if "2 powi (- 20) \<le> t" for t :: rat
      using that by (rule less_le_trans [rotated]) simp
    ultimately show ?thesis using r by (auto simp: Number_of_def)
  qed
qed

lemma duration_negative:
  assumes "d < 0"
  shows "js_div (Number_of d) (Fin 1000000) = NInf \<or>
         (\<exists>t. js_div (Number_of d) (Fin 1000000) = Fin t \<and> t < 0)"
proof -
  have "Number_of d = js_neg (Number_of (- d))" using Number_of_minus [of "- d"] by simp
  then have eq: "js_div (Number_of d) (Fin 1000000) = js_neg (js_div (Number_of (- d)) (Fin 1000000))"
    by (simp add: js_div_neg)
  have "0 < - d" using assms by simp
  from duration_positive [OF this] show ?thesis
    unfolding eq by (auto simp: js_neg_def)
qed

lemma zero_division:
  "js_div (js_div (Number_of d) (Fin 1000000)) (Fin 0) =
     (if d = 0 then NaN else if 0 < d then PInf else NInf)"
proof -
  consider "d = 0" | "0 < d" | "d < 0" by linarith
  then show ?thesis
  proof cases
    case 1
    then show ?thesis by (simp add: Number_of_def to_double_0)
  next
    case 2
    with duration_positive [OF 2] show ?thesis by auto
  next
    case 3
    with duration_negative [OF 3] show ?thesis by auto
  qed
qed

lemma genuine_division:
  assumes "1 \<le> N"
  shows "js_div T (Fin (of_int N)) =
           (case T of Fin t \<Rightarrow> to_double (t / of_int N) | PInf \<Rightarrow> PInf | NInf \<Rightarrow> NInf | NaN \<Rightarrow> NaN)"
  using assms by (cases T) simp_all

lemma fresh_every_fields:
  "stdout (fresh_every step h) = []" "stderr (fresh_every step h) = []"
  "heap (fresh_every step h) = h" "microtasks (fresh_every step h) = []"
  "hrtime (fresh_every step h) n = 7000000000 + step * int n"
  "memory (fresh_every step h) = memory (fresh h)"
  by (simp_all add: fresh_every_def fresh_fields)

lemma ticks:
  assumes "0 \<le> N"
  shows "for_loop 0 N (tick :: ('e, nat) operation) w = (Returned, w\<lparr>heap := heap w + nat N\<rparr>)"
proof -
  have "for_loop 0 N (tick :: ('e, nat) operation) w =
      (Returned, invoked (tick :: ('e, nat) operation) (nat N) w)"
    using assms by (intro for_loop_returns_0) (simp_all add: tick_returns)
  then show ?thesis by (simp add: invoked_tick)
qed

text \<open>
  The double nearest to \<open>0.015\<close> lies below it, and so does the double nearest to
  \<open>1.005\<close>: what is printed is the rounding of the double, not of the quotient.
\<close>

lemma to_double_again:
  "to_double (1131529406376837 / 1125899906842624) = Fin (1131529406376837 / 1125899906842624)"
  using to_double_eval [of "- 52" "1131529406376837 / 1125899906842624" 4526117625507348]
    round_half_even_of_int [of 4526117625507348]
  by simp

lemma reported_examples:
  "toFixed ex 2 (js_div (Number_of 3000000) (Fin 1000000)) = ''3.00''"
  "toFixed ex 2 (js_div (js_div (Number_of 3000000) (Fin 1000000)) (Fin 200)) = ''0.01''"
  "toFixed ex 2 (js_div (js_div (Number_of 3000000) (Fin 1000000)) (Fin (- 200))) = ''-0.01''"
  "toFixed ex 2 (js_div (Number_of 1005000) (Fin 1000000)) = ''1.00''"
  "toFixed ex 2 (js_div (js_div (Number_of 1005000) (Fin 1000000)) (Fin 1)) = ''1.00''"
  "toFixed ex 2 (Fin (3 / 200)) = ''0.02''"
  "toFixed ex 2 (Fin (201 / 200)) = ''1.01''"
  by (simp_all add: report_text to_double_again)

section \<open>The claims\<close>

text \<open>
  C1. For every iteration count \<open>N \<ge> 1\<close>, \<open>measurePerformance\<close> invokes the operation
  exactly \<open>N\<close> times, one after the other in loop order: when each of these calls returns,
  the run is fulfilled and the report is printed in the state that \<open>N\<close> calls in a row
  leave, each of them started in the state the call before has left. (A call that throws ends
  the loop; that is C4.)
\<close>

theorem measurePerformance_invokes_N_times:
  assumes "1 \<le> N"
    and "\<forall>k<nat N. fst (fn (invoked fn k (loop_start ex name N w))) = Returned"
  shows "measurePerformance ex name N fn w =
           (Inr (), measurePerformance_end ex (memory w 0) (hrtime w 0) N
                      (invoked fn (nat N) (loop_start ex name N w))) \<and>
         heap (snd (measurePerformance ex name N fn w)) =
           heap (invoked fn (nat N) (loop_start ex name N w))"
proof -
  have "for_loop 0 N fn (loop_start ex name N w) =
          (Returned, invoked fn (nat N) (loop_start ex name N w))"
    using assms by (intro for_loop_returns_0) simp_all
  then have "measurePerformance ex name N fn w =
           (Inr (), measurePerformance_end ex (memory w 0) (hrtime w 0) N
                      (invoked fn (nat N) (loop_start ex name N w)))"
    by (rule measurePerformance_returned)
  then show ?thesis by (simp add: measurePerformance_end_fields)
qed

text \<open>Three iterations of the call counter: the counter ends at three.\<close>

theorem measurePerformance_invokes_N_times_witness:
  "(1::int) \<le> 3 \<and>
   fst (measurePerformance no_exponential ''x'' 3 (tick :: (string, nat) operation) (fresh 0)) = Inr () \<and>
   heap (snd (measurePerformance no_exponential ''x'' 3 (tick :: (string, nat) operation) (fresh 0))) = 3"
proof -
  let ?tick = "tick :: (string, nat) operation"
  have one: "(1::int) \<le> 3" by simp
  have returns: "\<forall>k<nat 3. fst (?tick (invoked ?tick k (loop_start no_exponential ''x'' 3 (fresh 0)))) = Returned"
    by (simp add: tick_returns)
  note run = measurePerformance_invokes_N_times [OF one returns]
  have "heap (invoked ?tick (nat 3) (loop_start no_exponential ''x'' 3 (fresh 0))) = 3"
    by (simp add: invoked_tick loop_start_fields fresh_fields)
  with run one show ?thesis by (simp add: measurePerformance_end_fields)
qed

text \<open>
  C2. The claim: when the operation is asynchronous, each invocation's completion is awaited
  before the next one is issued, so that iterations never overlap. The loop calls \<open>fn()\<close> and
  drops the promise. For the asynchronous probe, which records its call number on entry and
  again when it completes, a run of \<open>N\<close> iterations from any state records the \<open>N\<close> entries
  in order and leaves all \<open>N\<close> remainders in the queue; none has completed when the next is
  issued. With two iterations the log reads entered 1, entered 2 when the harness returns,
  and the completions follow only when the event loop empties the queue; the loop that
  awaits each call records entered 1, completed 1, entered 2, completed 2.
\<close>

theorem measurePerformance_issues_calls_without_awaiting:
  "snd (heap (snd (measurePerformance ex name N
          (async_probe :: ('e, nat \<times> event list) operation) w))) =
     snd (heap w) @ map Entered [fst (heap w) + 1 ..< fst (heap w) + 1 + nat N] \<and>
   length (microtasks (snd (measurePerformance ex name N
          (async_probe :: ('e, nat \<times> event list) operation) w))) =
     length (microtasks w) + nat N \<and>
   snd (heap (snd (measurePerformance no_exponential ''x'' 2
          (async_probe :: (string, nat \<times> event list) operation) (fresh (0, []))))) =
     [Entered 1, Entered 2] \<and>
   length (microtasks (snd (measurePerformance no_exponential ''x'' 2
          (async_probe :: (string, nat \<times> event list) operation) (fresh (0, []))))) = 2 \<and>
   snd (heap (drain (snd (measurePerformance no_exponential ''x'' 2
          (async_probe :: (string, nat \<times> event list) operation) (fresh (0, [])))))) =
     [Entered 1, Entered 2, Completed 1, Completed 2] \<and>
   snd (heap (snd (spec_awaiting_loop 0 2 (async_probe :: (string, nat \<times> event list) operation)
                     (fresh (0, []))))) =
     [Entered 1, Completed 1, Entered 2, Completed 2]"
proof -
  note run = measurePerformance_async_probe
  have two: "[Suc 0..<3] = [1, 2]" by (simp add: upt_rec)
  have general: "snd (heap (snd (measurePerformance ex name N (async_probe :: ('e, nat \<times> event list) operation) w))) =
       snd (heap w) @ map Entered [fst (heap w) + 1 ..< fst (heap w) + 1 + nat N] \<and>
     length (microtasks (snd (measurePerformance ex name N (async_probe :: ('e, nat \<times> event list) operation) w))) =
       length (microtasks w) + nat N"
    unfolding run
    by (simp add: measurePerformance_end_fields loop_start_fields invoked_async_probe)
  have example: "snd (heap (snd (measurePerformance no_exponential ''x'' 2
          (async_probe :: (string, nat \<times> event list) operation) (fresh (0, []))))) =
     [Entered 1, Entered 2] \<and>
   length (microtasks (snd (measurePerformance no_exponential ''x'' 2
          (async_probe :: (string, nat \<times> event list) operation) (fresh (0, []))))) = 2 \<and>
   snd (heap (drain (snd (measurePerformance no_exponential ''x'' 2
          (async_probe :: (string, nat \<times> event list) operation) (fresh (0, [])))))) =
     [Entered 1, Entered 2, Completed 1, Completed 2]"
    unfolding run
    by (simp add: measurePerformance_end_fields loop_start_fields fresh_fields
        invoked_async_probe drain_def two)
  from general example spec_awaiting_loop_async_probe show ?thesis by blast
qed




text \<open>
  C4. If the operation throws on its \<open>k\<close>-th invocation, \<open>measurePerformance\<close> does not catch
  the error: the run is rejected with the very value that was thrown, the state is the one
  that the \<open>k\<close> calls have left, so the operation was invoked exactly \<open>k\<close> times, and neither
  the remaining iterations nor the report follow.
\<close>

theorem measurePerformance_propagates_throw:
  assumes "1 \<le> k" and "int k \<le> N"
    and "\<forall>j<k - 1. fst (fn (invoked fn j (loop_start ex name N w))) = Returned"
    and "fst (fn (invoked fn (k - 1) (loop_start ex name N w))) = Threw e"
  shows "measurePerformance ex name N fn w = (Inl e, invoked fn k (loop_start ex name N w))"
proof -
  have "int (k - 1) < N" using assms(1,2) by simp
  with assms(3,4)
  have "for_loop 0 N fn (loop_start ex name N w) =
          (Threw e, invoked fn (Suc (k - 1)) (loop_start ex name N w))"
    by (rule for_loop_throws_0)
  then show ?thesis using assms(1) by (simp add: measurePerformance_threw)
qed

text \<open>
  Five iterations of an operation that throws on its third call: the run is rejected with
  what was thrown, the call counter stands at three, and only the two header lines were printed.
\<close>

theorem measurePerformance_propagates_throw_witness:
  "(1::nat) \<le> 3 \<and> int 3 \<le> 5 \<and>
   fst (measurePerformance no_exponential ''x'' 5 failing_on_third (fresh 0)) = Inl ''boom'' \<and>
   heap (snd (measurePerformance no_exponential ''x'' 5 failing_on_third (fresh 0))) = 3 \<and>
   stdout (snd (measurePerformance no_exponential ''x'' 5 failing_on_third (fresh 0))) =
     [CHR 0x0A # ''Benchmarking: x'', ''Iterations: 5'']"
proof -
  let ?w = "loop_start no_exponential ''x'' 5 (fresh (0::nat))"
  have h: "heap ?w = 0" by (simp add: loop_start_fields fresh_fields)
  have inv: "\<And>k. k \<le> 3 \<Longrightarrow> invoked failing_on_third k ?w = ?w\<lparr>heap := k\<rparr>"
    using h by (rule invoked_failing_on_third [rotated])
  have a: "\<forall>j<3 - 1. fst (failing_on_third (invoked failing_on_third j ?w)) = Returned"
  proof (intro allI impI)
    fix j :: nat
    assume "j < 3 - 1"
    then have "j \<le> 3" "j \<noteq> 2" by simp_all
    then show "fst (failing_on_third (invoked failing_on_third j ?w)) = Returned"
      by (simp add: inv failing_on_third_def Let_def)
  qed
  have b: "fst (failing_on_third (invoked failing_on_third (3 - 1) ?w)) = Threw ''boom''"
    by (simp add: inv failing_on_third_def Let_def)
  have "measurePerformance no_exponential ''x'' 5 failing_on_third (fresh 0) =
          (Inl ''boom'', invoked failing_on_third 3 ?w)"
    using measurePerformance_propagates_throw [OF _ _ a b] by simp
  then show ?thesis by (simp add: inv report_text)
qed

text \<open>
  C5. The claim selects the unit by the scaled magnitude, for every byte count, negative ones
  included. The loop compares the signed value, \<open>size >= 1024\<close>: for \<open>-2048\<close>, whose
  magnitude calls for KB, it divides not once and prints the value in bytes, where the
  humanizer of the specification prints \<open>-2.00 KB\<close>. The count \<open>2048\<close> is printed in KB, and
  the four examples of the claim, none of them negative, are printed as the claim says.
\<close>

theorem formatBytes_negative_not_scaled:
  "formatBytes no_exponential (Fin (- 2048)) = ''-2048.00 B'' \<and>
   spec_humanizer no_exponential (- 2048) = ''-2.00 KB'' \<and>
   spec_unit (- 2048) = 1 \<and>
   snd (formatBytes_loop (Fin (- 2048)) 0) = 0 \<and>
   formatBytes no_exponential (Fin 2048) = ''2.00 KB'' \<and>
   formatBytes no_exponential (Fin 0) = ''0.00 B'' \<and>
   formatBytes no_exponential (Fin 1024) = ''1.00 KB'' \<and>
   formatBytes no_exponential (Fin 1536) = ''1.50 KB'' \<and>
   formatBytes no_exponential (Fin 1048576) = ''1.00 MB''"
  by (simp add: report_text formatBytes_loop_stop)

text \<open>
  C6. The claim: a negative byte count is scaled like its magnitude and keeps its sign, so that
  \<open>-1048576\<close> is printed in MB. The loop condition \<open>size >= 1024\<close> is false for every
  negative size: \<open>-1048576\<close> is printed as \<open>-1048576.00 B\<close>, while \<open>1048576\<close> is printed
  as \<open>1.00 MB\<close> and the humanizer of the specification gives \<open>-1.00 MB\<close>.
\<close>

theorem formatBytes_negative_megabyte:
  "formatBytes no_exponential (Fin (- 1048576)) = ''-1048576.00 B'' \<and>
   formatBytes no_exponential (Fin 1048576) = ''1.00 MB'' \<and>
   spec_humanizer no_exponential (- 1048576) = ''-1.00 MB''"
  by (simp add: report_text)

text \<open>
  C7. For every \<open>N \<ge> 1\<close>, in a run whose loop has returned in the state \<open>w5\<close>: the total
  that is reported is the clock reading taken after the loop minus the one taken before it,
  converted to a double and divided by \<open>1000000\<close> to give milliseconds, and the mean that is
  reported is that total divided by \<open>N\<close>, both printed with two decimals. The two divisions
  are those of the language: each gives the double nearest to the quotient, and as \<open>N\<close> is
  not zero the second one is a genuine division.
\<close>

theorem measurePerformance_mean_is_total_over_N:
  assumes "1 \<le> N"
    and "for_loop 0 N fn (loop_start ex name N w) = (Returned, w5)"
  shows "take 3 (drop (length (stdout w5)) (stdout (snd (measurePerformance ex name N fn w)))) =
           [CHR 0x0A # ''Results:'',
            ''Total Time: '' @
              toFixed ex 2 (js_div (Number_of (hrtime w5 0 - hrtime w 0)) (Fin 1000000)) @ ''ms'',
            ''Average Time per Operation: '' @
              toFixed ex 2 (js_div (js_div (Number_of (hrtime w5 0 - hrtime w 0)) (Fin 1000000))
                              (Fin (of_int N))) @ ''ms''] \<and>
         js_div (Number_of (hrtime w5 0 - hrtime w 0)) (Fin 1000000) =
           (case Number_of (hrtime w5 0 - hrtime w 0) of
              Fin d \<Rightarrow> to_double (d / 1000000) | PInf \<Rightarrow> PInf | NInf \<Rightarrow> NInf | NaN \<Rightarrow> NaN) \<and>
         js_div (js_div (Number_of (hrtime w5 0 - hrtime w 0)) (Fin 1000000)) (Fin (of_int N)) =
           (case js_div (Number_of (hrtime w5 0 - hrtime w 0)) (Fin 1000000) of
              Fin t \<Rightarrow> to_double (t / of_int N) | PInf \<Rightarrow> PInf | NInf \<Rightarrow> NInf | NaN \<Rightarrow> NaN)"
proof -
  have run: "measurePerformance ex name N fn w =
      (Inr (), measurePerformance_end ex (memory w 0) (hrtime w 0) N w5)"
    using assms(2) by (rule measurePerformance_returned)
  have lines: "take 3 (drop (length (stdout w5)) (stdout (snd (measurePerformance ex name N fn w)))) =
           [CHR 0x0A # ''Results:'',
            ''Total Time: '' @
              toFixed ex 2 (js_div (Number_of (hrtime w5 0 - hrtime w 0)) (Fin 1000000)) @ ''ms'',
            ''Average Time per Operation: '' @
              toFixed ex 2 (js_div (js_div (Number_of (hrtime w5 0 - hrtime w 0)) (Fin 1000000))
                              (Fin (of_int N))) @ ''ms'']"
    unfolding run snd_conv measurePerformance_end_fields by simp
  have total: "js_div T (Fin 1000000) =
      (case T of Fin d \<Rightarrow> to_double (d / 1000000) | PInf \<Rightarrow> PInf | NInf \<Rightarrow> NInf | NaN \<Rightarrow> NaN)"
    for T
    by (cases T) simp_all
  from lines total genuine_division [OF assms(1)] show ?thesis by (intro conjI)
qed

text \<open>
  Two hundred iterations between readings three milliseconds apart: a total of 3.00 ms and a
  mean of 0.01 ms, the double nearest to \<open>0.015\<close> being below it. One iteration between
  readings 1005000 nanoseconds apart: a total and a mean of 1.00 ms, the double nearest to
  \<open>1.005\<close> being below it.
\<close>

theorem measurePerformance_mean_is_total_over_N_witness:
  "(1::int) \<le> 200 \<and>
   for_loop 0 200 (tick :: (string, nat) operation) (loop_start no_exponential ''x'' 200 (fresh 0)) =
     (Returned, (loop_start no_exponential ''x'' 200 (fresh 0))\<lparr>heap := 200\<rparr>) \<and>
   take 3 (drop 2 (stdout (snd (measurePerformance no_exponential ''x'' 200
                                  (tick :: (string, nat) operation) (fresh 0))))) =
     [CHR 0x0A # ''Results:'', ''Total Time: 3.00ms'', ''Average Time per Operation: 0.01ms''] \<and>
   (1::int) \<le> 1 \<and>
   for_loop 0 1 (tick :: (string, nat) operation)
       (loop_start no_exponential ''x'' 1 (fresh_every 1005000 0)) =
     (Returned, (loop_start no_exponential ''x'' 1 (fresh_every 1005000 0))\<lparr>heap := 1\<rparr>) \<and>
   take 3 (drop 2 (stdout (snd (measurePerformance no_exponential ''x'' 1
                                  (tick :: (string, nat) operation) (fresh_every 1005000 0))))) =
     [CHR 0x0A # ''Results:'', ''Total Time: 1.00ms'', ''Average Time per Operation: 1.00ms'']"
proof -
  let ?tick = "tick :: (string, nat) operation"
  have many: "(1::int) \<le> 200" and one: "(1::int) \<le> 1" by simp_all
  have loop: "for_loop 0 200 ?tick (loop_start no_exponential ''x'' 200 (fresh 0)) =
      (Returned, (loop_start no_exponential ''x'' 200 (fresh 0))\<lparr>heap := 200\<rparr>)"
    by (simp add: ticks loop_start_fields fresh_fields)
  have loop': "for_loop 0 1 ?tick (loop_start no_exponential ''x'' 1 (fresh_every 1005000 0)) =
      (Returned, (loop_start no_exponential ''x'' 1 (fresh_every 1005000 0))\<lparr>heap := 1\<rparr>)"
    by (simp add: ticks loop_start_fields fresh_every_fields)
  have len: "length (stdout ((loop_start no_exponential ''x'' 200 (fresh (0::nat)))\<lparr>heap := 200\<rparr>)) = 2"
    by (simp add: loop_start_fields fresh_fields)
  have len': "length (stdout ((loop_start no_exponential ''x'' 1 (fresh_every 1005000 (0::nat)))\<lparr>heap := 1\<rparr>)) = 2"
    by (simp add: loop_start_fields fresh_every_fields)
  note mean = measurePerformance_mean_is_total_over_N [OF many loop, THEN conjunct1, unfolded len]
  note mean' = measurePerformance_mean_is_total_over_N [OF one loop', THEN conjunct1, unfolded len']
  have a: "take 3 (drop 2 (stdout (snd (measurePerformance no_exponential ''x'' 200 ?tick (fresh 0))))) =
     [CHR 0x0A # ''Results:'', ''Total Time: 3.00ms'', ''Average Time per Operation: 0.01ms'']"
    using mean by (simp add: loop_start_fields fresh_fields reported_examples)
  have b: "take 3 (drop 2 (stdout (snd (measurePerformance no_exponential ''x'' 1 ?tick
                                          (fresh_every 1005000 0))))) =
     [CHR 0x0A # ''Results:'', ''Total Time: 1.00ms'', ''Average Time per Operation: 1.00ms'']"
    using mean' by (simp add: loop_start_fields fresh_every_fields reported_examples)
  from many one loop loop' a b show ?thesis by (intro conjI)
qed

text \<open>
  C8. In a run whose loop has returned in the state \<open>w5\<close>, the three memory lines of the
  report show, for the heap used, the heap total and the resident set size, the humanizer
  applied to the counter of the snapshot taken after the loop minus the same counter of the
  snapshot taken before it: a signed difference, with nothing else done to it.
\<close>

theorem measurePerformance_memory_deltas:
  assumes "for_loop 0 N fn (loop_start ex name N w) = (Returned, w5)"
  shows "drop (length (stdout w5) + 4) (stdout (snd (measurePerformance ex name N fn w))) =
           [''Heap Used: '' @
              formatBytes ex (Fin (of_int (int (heapUsed (memory w5 0)) - int (heapUsed (memory w 0))))),
            ''Heap Total: '' @
              formatBytes ex (Fin (of_int (int (heapTotal (memory w5 0)) - int (heapTotal (memory w 0))))),
            ''RSS: '' @
              formatBytes ex (Fin (of_int (int (rss (memory w5 0)) - int (rss (memory w 0)))))]"
proof -
  have run: "measurePerformance ex name N fn w =
      (Inr (), measurePerformance_end ex (memory w 0) (hrtime w 0) N w5)"
    using assms by (rule measurePerformance_returned)
  show ?thesis
    unfolding run snd_conv measurePerformance_end_fields by simp
qed

text \<open>
  A run during which the heap in use shrinks by a megabyte, the heap grows by a megabyte and the
  resident set by 1536 bytes.
\<close>

theorem measurePerformance_memory_deltas_witness:
  "for_loop 0 2 (tick :: (string, nat) operation) (loop_start no_exponential ''x'' 2 (fresh 0)) =
     (Returned, (loop_start no_exponential ''x'' 2 (fresh 0))\<lparr>heap := 2\<rparr>) \<and>
   drop 6 (stdout (snd (measurePerformance no_exponential ''x'' 2
                          (tick :: (string, nat) operation) (fresh 0)))) =
     [''Heap Used: -1048576.00 B'', ''Heap Total: 1.00 MB'', ''RSS: 1.50 KB'']"
proof -
  have len: "length (stdout ((loop_start no_exponential ''x'' 2 (fresh (0::nat)))\<lparr>heap := 2\<rparr>)) + 4 = 6"
    by (simp add: loop_start_fields fresh_fields)
  note deltas = measurePerformance_memory_deltas [OF two_ticks, unfolded len]
  have "drop 6 (stdout (snd (measurePerformance no_exponential ''x'' 2
                          (tick :: (string, nat) operation) (fresh 0)))) =
     [''Heap Used: -1048576.00 B'', ''Heap Total: 1.00 MB'', ''RSS: 1.50 KB'']"
    using deltas by (simp add: report_text)
  with two_ticks show ?thesis by simp
qed

text \<open>
  C9. A call of \<open>measurePerformance\<close> changes the process in two ways only: through the calls
  of the operation, and by appending lines to the standard output. Whether the run is fulfilled
  or rejected, its final heap, event-loop queue and error stream are those left by some number
  \<open>k \<le> N\<close> of calls of the operation in a row, started in the state in which the loop
  starts; the standard output is the one these calls left, with lines appended. The state in
  which the loop starts differs from the initial one by the two header lines and by the one
  reading of the clock and the one memory snapshot that have been taken. The class has no field,
  and the harness takes and returns nothing but the process state: after a run that was
  rejected at the third of five iterations, a run of three iterations of the call counter is
  fulfilled and counts three more calls.
\<close>

theorem measurePerformance_frame:
  "(\<exists>k lines.
      int k \<le> max 0 N \<and>
      heap (snd (measurePerformance ex name N fn w)) = heap (invoked fn k (loop_start ex name N w)) \<and>
      microtasks (snd (measurePerformance ex name N fn w)) =
        microtasks (invoked fn k (loop_start ex name N w)) \<and>
      stderr (snd (measurePerformance ex name N fn w)) =
        stderr (invoked fn k (loop_start ex name N w)) \<and>
      stdout (snd (measurePerformance ex name N fn w)) =
        stdout (invoked fn k (loop_start ex name N w)) @ lines) \<and>
   heap (loop_start ex name N w) = heap w \<and>
   microtasks (loop_start ex name N w) = microtasks w \<and>
   stderr (loop_start ex name N w) = stderr w \<and>
   stdout (loop_start ex name N w) =
     stdout w @ [CHR 0x0A # ''Benchmarking: '' @ name, ''Iterations: '' @ toString ex N] \<and>
   hrtime (loop_start ex name N w) = (\<lambda>n. hrtime w (Suc n)) \<and>
   memory (loop_start ex name N w) = (\<lambda>n. memory w (Suc n)) \<and>
   fst (measurePerformance no_exponential ''y'' 3 (tick :: (string, nat) operation)
          (snd (measurePerformance no_exponential ''x'' 5 failing_on_third (fresh 0)))) = Inr () \<and>
   heap (snd (measurePerformance no_exponential ''y'' 3 (tick :: (string, nat) operation)
          (snd (measurePerformance no_exponential ''x'' 5 failing_on_third (fresh 0))))) = 6"
proof -
  obtain k where k: "int k \<le> max 0 (N - 0)"
    and loop: "snd (for_loop 0 N fn (loop_start ex name N w)) = invoked fn k (loop_start ex name N w)"
    using for_loop_invoked [of N 0 fn "loop_start ex name N w"] by blast
  let ?w5 = "invoked fn k (loop_start ex name N w)"
  obtain c where c: "for_loop 0 N fn (loop_start ex name N w) = (c, ?w5)"
    using loop by (metis prod.collapse)
  have "\<exists>lines. heap (snd (measurePerformance ex name N fn w)) = heap ?w5 \<and>
      microtasks (snd (measurePerformance ex name N fn w)) = microtasks ?w5 \<and>
      stderr (snd (measurePerformance ex name N fn w)) = stderr ?w5 \<and>
      stdout (snd (measurePerformance ex name N fn w)) = stdout ?w5 @ lines"
  proof (cases c)
    case Returned
    with c have "measurePerformance ex name N fn w =
        (Inr (), measurePerformance_end ex (memory w 0) (hrtime w 0) N ?w5)"
      by (simp add: measurePerformance_returned)
    then show ?thesis by (simp add: measurePerformance_end_fields)
  next
    case (Threw e)
    with c have "measurePerformance ex name N fn w = (Inl e, ?w5)"
      by (simp add: measurePerformance_threw)
    then show ?thesis by simp
  qed
  with k have first: "\<exists>k lines.
      int k \<le> max 0 N \<and>
      heap (snd (measurePerformance ex name N fn w)) = heap (invoked fn k (loop_start ex name N w)) \<and>
      microtasks (snd (measurePerformance ex name N fn w)) =
        microtasks (invoked fn k (loop_start ex name N w)) \<and>
      stderr (snd (measurePerformance ex name N fn w)) =
        stderr (invoked fn k (loop_start ex name N w)) \<and>
      stdout (snd (measurePerformance ex name N fn w)) =
        stdout (invoked fn k (loop_start ex name N w)) @ lines"
    by auto
  show ?thesis
    using first run_after_failed_run by (simp only: loop_start_fields simp_thms)
qed

text \<open>
  C10. For every iteration count of zero or less, \<open>measurePerformance\<close> raises no error and
  never invokes the operation: the loop returns at once in the state in which it started, heap
  and queue are as before the call, and the whole report is printed. Its total is the elapsed
  nanoseconds as a double divided by \<open>1000000\<close>, and its mean is that total divided by the
  count, both with the division of the language: with the count zero the mean is \<open>NaN\<close> when
  the two clock readings are equal, \<open>Infinity\<close> when the clock has advanced and \<open>-Infinity\<close>
  otherwise; with a negative count it is the double nearest to the quotient, printed with two
  decimals.
\<close>

theorem measurePerformance_nonpositive_report:
  assumes "N \<le> 0"
  shows "fst (measurePerformance ex name N fn w) = Inr () \<and>
         for_loop 0 N fn (loop_start ex name N w) = (Returned, loop_start ex name N w) \<and>
         heap (snd (measurePerformance ex name N fn w)) = heap w \<and>
         microtasks (snd (measurePerformance ex name N fn w)) = microtasks w \<and>
         stdout (snd (measurePerformance ex name N fn w)) =
           stdout w @
           [CHR 0x0A # ''Benchmarking: '' @ name,
            ''Iterations: '' @ toString ex N,
            CHR 0x0A # ''Results:'',
            ''Total Time: '' @
              toFixed ex 2 (js_div (Number_of (hrtime w 1 - hrtime w 0)) (Fin 1000000)) @ ''ms'',
            ''Average Time per Operation: '' @
              (if N = 0
               then (if hrtime w 1 = hrtime w 0 then ''NaN''
                     else if hrtime w 0 < hrtime w 1 then ''Infinity'' else ''-Infinity'')
               else toFixed ex 2 (js_div (js_div (Number_of (hrtime w 1 - hrtime w 0)) (Fin 1000000))
                                    (Fin (of_int N)))) @
              ''ms'',
            CHR 0x0A # ''Memory Usage:'',
            ''Heap Used: '' @
              formatBytes ex (Fin (of_int (int (heapUsed (memory w 1)) - int (heapUsed (memory w 0))))),
            ''Heap Total: '' @
              formatBytes ex (Fin (of_int (int (heapTotal (memory w 1)) - int (heapTotal (memory w 0))))),
            ''RSS: '' @
              formatBytes ex (Fin (of_int (int (rss (memory w 1)) - int (rss (memory w 0)))))]"
proof -
  have skip: "for_loop 0 N fn (loop_start ex name N w) = (Returned, loop_start ex name N w)"
    using assms by (rule for_loop_done)
  then have run: "measurePerformance ex name N fn w =
      (Inr (), measurePerformance_end ex (memory w 0) (hrtime w 0) N (loop_start ex name N w))"
    by (rule measurePerformance_returned)
  have mean: "toFixed ex 2 (js_div (js_div (Number_of (hrtime w 1 - hrtime w 0)) (Fin 1000000))
                              (Fin (of_int N))) =
      (if hrtime w 1 = hrtime w 0 then ''NaN''
       else if hrtime w 0 < hrtime w 1 then ''Infinity'' else ''-Infinity'')"
    if "N = 0"
    using that by (simp add: zero_division toFixed_not_finite)
  have lines: "stdout (snd (measurePerformance ex name N fn w)) =
           stdout w @
           [CHR 0x0A # ''Benchmarking: '' @ name,
            ''Iterations: '' @ toString ex N,
            CHR 0x0A # ''Results:'',
            ''Total Time: '' @
              toFixed ex 2 (js_div (Number_of (hrtime w 1 - hrtime w 0)) (Fin 1000000)) @ ''ms'',
            ''Average Time per Operation: '' @
              toFixed ex 2 (js_div (js_div (Number_of (hrtime w 1 - hrtime w 0)) (Fin 1000000))
                              (Fin (of_int N))) @ ''ms'',
            CHR 0x0A # ''Memory Usage:'',
            ''Heap Used: '' @
              formatBytes ex (Fin (of_int (int (heapUsed (memory w 1)) - int (heapUsed (memory w 0))))),
            ''Heap Total: '' @
              formatBytes ex (Fin (of_int (int (heapTotal (memory w 1)) - int (heapTotal (memory w 0))))),
            ''RSS: '' @
              formatBytes ex (Fin (of_int (int (rss (memory w 1)) - int (rss (memory w 0)))))]"
    unfolding run snd_conv measurePerformance_end_fields loop_start_fields by simp
  have state: "fst (measurePerformance ex name N fn w) = Inr ()"
    "heap (snd (measurePerformance ex name N fn w)) = heap w"
    "microtasks (snd (measurePerformance ex name N fn w)) = microtasks w"
    unfolding run fst_conv snd_conv measurePerformance_end_fields loop_start_fields by simp_all
  show ?thesis
  proof (cases "N = 0")
    case True
    show ?thesis
      unfolding lines state if_P [OF True] mean [OF True, symmetric]
      using skip by simp
  next
    case False
    show ?thesis
      unfolding lines state if_not_P [OF False]
      using skip by simp
  qed
qed

text \<open>
  Zero iterations with a clock that advances by three milliseconds: the total is printed as
  \<open>3.00\<close> and the mean as \<open>Infinity\<close>. With the count \<open>-200\<close> the mean is printed as
  \<open>-0.01\<close>.
\<close>

theorem measurePerformance_nonpositive_report_witness:
  "(0::int) \<le> 0 \<and>
   fst (measurePerformance no_exponential ''x'' 0 (tick :: (string, nat) operation) (fresh 0)) = Inr () \<and>
   heap (snd (measurePerformance no_exponential ''x'' 0 (tick :: (string, nat) operation) (fresh 0))) = 0 \<and>
   stdout (snd (measurePerformance no_exponential ''x'' 0 (tick :: (string, nat) operation) (fresh 0))) ! 3 =
     ''Total Time: 3.00ms'' \<and>
   stdout (snd (measurePerformance no_exponential ''x'' 0 (tick :: (string, nat) operation) (fresh 0))) ! 4 =
     ''Average Time per Operation: Infinityms'' \<and>
   (- 200 :: int) \<le> 0 \<and>
   stdout (snd (measurePerformance no_exponential ''x'' (- 200) (tick :: (string, nat) operation) (fresh 0))) ! 4 =
     ''Average Time per Operation: -0.01ms''"
proof -
  let ?tick = "tick :: (string, nat) operation"
  have zero: "(0::int) \<le> 0" and neg: "(- 200 :: int) \<le> 0" by simp_all
  note report = measurePerformance_nonpositive_report
    [OF zero, of no_exponential "''x''" ?tick "fresh 0"]
  note report' = measurePerformance_nonpositive_report
    [OF neg, of no_exponential "''x''" ?tick "fresh 0"]
  from report have a: "fst (measurePerformance no_exponential ''x'' 0 ?tick (fresh 0)) = Inr ()"
    by (rule conjunct1)
  from report
  have b: "heap (snd (measurePerformance no_exponential ''x'' 0 ?tick (fresh 0))) = 0"
    by (simp add: fresh_fields)
  from report
  have c: "stdout (snd (measurePerformance no_exponential ''x'' 0 ?tick (fresh 0))) ! 3 =
     ''Total Time: 3.00ms''"
    by (simp add: fresh_fields reported_examples)
  from report
  have d: "stdout (snd (measurePerformance no_exponential ''x'' 0 ?tick (fresh 0))) ! 4 =
     ''Average Time per Operation: Infinityms''"
    by (simp add: fresh_fields)
  from report'
  have e: "stdout (snd (measurePerformance no_exponential ''x'' (- 200) ?tick (fresh 0))) ! 4 =
     ''Average Time per Operation: -0.01ms''"
    by (simp add: fresh_fields reported_examples)
  from zero neg a b c d e show ?thesis by (intro conjI)
qed

end
